theory Spec2Isabelle
  imports Complex_Main "HOL-Library.Sublist" "HOL-Library.AList"
begin

section \<open>Byte formatting (\<open>format_bytes\<close>, lines 43-51)\<close>

text \<open>
  \<open>format_bytes\<close> converts its integer argument to a Python float and divides it by
  \<open>1024.0\<close> until it is below \<open>1024.0\<close>. A float is a binary fraction with a 53-bit
  significand: \<open>float(n)\<close> is \<open>n\<close> itself while \<open>n\<close> has at most 53 bits, and \<open>n\<close>
  rounded to 53 significant bits (ties to even) beyond; it raises \<open>OverflowError\<close> when
  the rounded value reaches \<open>2 ^ 1024\<close>. Dividing by \<open>1024.0\<close> only lowers the exponent,
  so every later value of \<open>amount\<close> is the exact quotient, which is why \<open>amount\<close> is a
  rational number here. \<open>{amount:.2f}\<close> prints the exact value rounded to two decimals,
  ties to even.
\<close>

definition round_half_even :: "rat \<Rightarrow> int" where
  "round_half_even x =
     (let f = \<lfloor>x\<rfloor>; d = x - of_int f
      in if d < 1 / 2 then f else if 1 / 2 < d then f + 1 else if even f then f else f + 1)"

function bit_length :: "int \<Rightarrow> nat" where
  "bit_length n = (if n \<le> 0 then 0 else Suc (bit_length (n div 2)))"
  by pat_completeness auto
termination
  by (relation "measure nat") auto

definition py_float :: "int \<Rightarrow> rat option" where
  "py_float n =
     (let b = bit_length \<bar>n\<bar>
      in if b \<le> 53 then Some (of_int n)
         else let sh = b - 53;
                  m = round_half_even (of_int n / 2 ^ sh);
                  r = of_int m * 2 ^ sh
              in if \<bar>r\<bar> < 2 ^ 1024 then Some r else None)"

definition digit :: "int \<Rightarrow> char" where
  "digit d = ''0123456789'' ! nat (d mod 10)"

function decimal :: "int \<Rightarrow> string" where
  "decimal n = (if n < 10 then [digit n] else decimal (n div 10) @ [digit n])"
  by pat_completeness auto
termination
  by (relation "measure nat") auto

definition fmt2 :: "rat \<Rightarrow> string" where
  "fmt2 x =
     (let c = round_half_even (\<bar>x\<bar> * 100)
      in (if x < 0 then ''-'' else '''') @ decimal (c div 100) @ ''.''
           @ [digit (c div 10), digit c])"

fun scale_units :: "string list \<Rightarrow> rat \<Rightarrow> string" where
  "scale_units [] amount = fmt2 amount @ '' PB''"
| "scale_units (unit # units) amount =
     (if amount < 1024 then fmt2 amount @ '' '' @ unit
      else scale_units units (amount / 1024))"

text \<open>
  The exceptions the program can meet. The two \<open>RuntimeError\<close>s of \<open>create_junction\<close>
  (lines 193 and 200) are told apart by their message; the first carries the link path,
  the second the captured output of the command.
\<close>

datatype exn =
    FileNotFoundError | FileExistsError | NotADirectoryError | PermissionError
  | SameFileError | OSError | OverflowError | EOFError | KeyboardInterrupt | SystemExit
  | RuntimeError_link_exists "string list" | RuntimeError_mklink_failed string string

text \<open>\<open>except Exception\<close> does not catch \<open>KeyboardInterrupt\<close> and \<open>SystemExit\<close>.\<close>

definition is_Exception :: "exn \<Rightarrow> bool" where
  "is_Exception e = (e \<noteq> KeyboardInterrupt \<and> e \<noteq> SystemExit)"

definition units :: "string list" where
  "units = [''B'', ''KB'', ''MB'', ''GB'', ''TB'']"

definition format_bytes :: "int \<Rightarrow> exn + string" where
  "format_bytes num_bytes =
     (case py_float num_bytes of
        None \<Rightarrow> Inl OverflowError
      | Some amount \<Rightarrow> Inr (scale_units units amount))"


section \<open>The file system\<close>

text \<open>
  A path is the list of its components below the root; the file system is an association
  list from paths to entries, and the root is a directory that is always there. A link
  holds the path it points to and is followed where it is the last component of a path
  (a chain of at most \<open>link_limit\<close> links, as the platform bounds it); the paths the
  program works on come out of \<open>Path.resolve()\<close> and \<open>os.walk\<close> does not descend into
  links, so components before the last are directories.
\<close>

type_synonym path = "string list"

datatype entry = File string | Directory | Symlink path

type_synonym fs = "(path \<times> entry) list"

definition lstat :: "fs \<Rightarrow> path \<Rightarrow> entry option" where
  "lstat fs p = (if p = [] then Some Directory else map_of fs p)"

fun follow :: "nat \<Rightarrow> fs \<Rightarrow> path \<Rightarrow> (path \<times> entry) option" where
  "follow 0 fs p =
     (case lstat fs p of None \<Rightarrow> None | Some (Symlink q) \<Rightarrow> None | Some e \<Rightarrow> Some (p, e))"
| "follow (Suc n) fs p =
     (case lstat fs p of None \<Rightarrow> None | Some (Symlink q) \<Rightarrow> follow n fs q | Some e \<Rightarrow> Some (p, e))"

definition link_limit :: nat where
  "link_limit = 40"

definition stat :: "fs \<Rightarrow> path \<Rightarrow> (path \<times> entry) option" where
  "stat fs p = follow link_limit fs p"

definition path_exists :: "fs \<Rightarrow> path \<Rightarrow> bool" where
  "path_exists fs p = (stat fs p \<noteq> None)"

definition path_is_dir :: "fs \<Rightarrow> path \<Rightarrow> bool" where
  "path_is_dir fs p = (case stat fs p of Some (q, Directory) \<Rightarrow> True | _ \<Rightarrow> False)"

definition path_is_symlink :: "fs \<Rightarrow> path \<Rightarrow> bool" where
  "path_is_symlink fs p = (case lstat fs p of Some (Symlink q) \<Rightarrow> True | _ \<Rightarrow> False)"

text \<open>The names and entries stored directly under a directory, as \<open>os.scandir\<close> lists them.\<close>

definition listdir :: "fs \<Rightarrow> path \<Rightarrow> (string \<times> entry) list" where
  "listdir fs d = [(last p, e). (p, e) \<leftarrow> fs, p \<noteq> [] \<and> butlast p = d]"

text \<open>
  \<open>os.walk\<close> puts an entry under \<open>dirs\<close> when it is a directory or a link to one, and
  under \<open>files\<close> otherwise; it walks into the members of \<open>dirs\<close> that are not links.
\<close>

definition scan_dirs :: "fs \<Rightarrow> path \<Rightarrow> string list" where
  "scan_dirs fs dir = [n. (n, e) \<leftarrow> listdir fs dir, path_is_dir fs (dir @ [n])]"

definition scan_files :: "fs \<Rightarrow> path \<Rightarrow> string list" where
  "scan_files fs dir = [n. (n, e) \<leftarrow> listdir fs dir, \<not> path_is_dir fs (dir @ [n])]"

definition walk_into :: "fs \<Rightarrow> path \<Rightarrow> path list" where
  "walk_into fs dir = [dir @ [n]. n \<leftarrow> scan_dirs fs dir, \<not> path_is_symlink fs (dir @ [n])]"

definition depth_bound :: "fs \<Rightarrow> nat" where
  "depth_bound fs = Suc (foldr max (map (\<lambda>(p, e). length p) fs) 0)"

lemma depth_bound_key: "(p, e) \<in> set fs \<Longrightarrow> length p < depth_bound fs"
proof -
  have "(p, e) \<in> set fs \<Longrightarrow> length p \<le> foldr max (map (\<lambda>(p, e). length p) fs) 0"
    by (induction fs) auto
  then show "(p, e) \<in> set fs \<Longrightarrow> length p < depth_bound fs"
    by (simp add: depth_bound_def)
qed

lemma walk_into_depth: "q \<in> set (walk_into fs dir) \<Longrightarrow> length q < depth_bound fs"
proof -
  assume "q \<in> set (walk_into fs dir)"
  then obtain n e where "(n, e) \<in> set (listdir fs dir)" and q: "q = dir @ [n]"
    by (auto simp: walk_into_def scan_dirs_def)
  then obtain p where "(p, e) \<in> set fs" "p \<noteq> []" "butlast p = dir" "last p = n"
    by (auto simp: listdir_def)
  then have "(q, e) \<in> set fs" using q by (metis append_butlast_last_id)
  then show ?thesis by (rule depth_bound_key)
qed

lemma walk_into_length: "q \<in> set (walk_into fs dir) \<Longrightarrow> length q = Suc (length dir)"
  by (auto simp: walk_into_def)

text \<open>
  \<open>os.walk(top, topdown=True)\<close> on a file system that does not change meanwhile: the
  triples \<open>(root, dirs, files)\<close> in the order they are produced. A \<open>top\<close> that cannot be
  listed produces nothing (\<open>onerror\<close> is \<open>None\<close>).
\<close>

function os_walk :: "fs \<Rightarrow> path \<Rightarrow> (path \<times> string list \<times> string list) list" where
  "os_walk fs dir =
     (if \<not> path_is_dir fs dir then []
      else (dir, scan_dirs fs dir, scan_files fs dir)
             # concat (map (os_walk fs) (walk_into fs dir)))"
  by pat_completeness auto
termination
proof (relation "measure (\<lambda>(fs, dir). depth_bound fs - length dir)")
  show "wf (measure (\<lambda>(fs, dir). depth_bound fs - length dir))" by simp
next
  fix fs :: fs and dir x :: path
  assume "x \<in> set (walk_into fs dir)"
  then have "length x < depth_bound fs" "length x = Suc (length dir)"
    by (auto dest: walk_into_depth walk_into_length)
  then show "((fs, x), (fs, dir)) \<in> measure (\<lambda>(fs, dir). depth_bound fs - length dir)"
    by simp
qed

declare os_walk.simps [simp del]

text \<open>
  The text of a path, and the length the platform allows it: a path of \<open>path_max\<close> bytes
  or more is refused with an \<open>OSError\<close> (file name too long) by the calls that go
  through it.
\<close>

definition path_str :: "path \<Rightarrow> string" where
  "path_str p = (if p = [] then ''/'' else concat (map (\<lambda>c. ''/'' @ c) p))"

definition path_max :: nat where
  "path_max = 4096"

definition too_long :: "path \<Rightarrow> bool" where
  "too_long p = (path_max \<le> length (path_str p))"

text \<open>A chain of links that does not end within \<open>link_limit\<close> steps.\<close>

fun too_many_links :: "nat \<Rightarrow> fs \<Rightarrow> path \<Rightarrow> bool" where
  "too_many_links 0 fs p = (case lstat fs p of Some (Symlink q) \<Rightarrow> True | _ \<Rightarrow> False)"
| "too_many_links (Suc n) fs p =
     (case lstat fs p of Some (Symlink q) \<Rightarrow> too_many_links n fs q | _ \<Rightarrow> False)"

text \<open>
  \<open>Path.mkdir(parents=True, exist_ok=True)\<close>: every missing directory on the way is made,
  shortest first, and a path that is too long is an \<open>OSError\<close>. An entry that is there
  and is not a directory (or a link to one) stops the call: at the path itself it is a
  \<open>FileExistsError\<close>; among the parents a file (or a link to one) is a
  \<open>NotADirectoryError\<close>, a link that leads nowhere a \<open>FileExistsError\<close> and a chain of
  links without end an \<open>OSError\<close>. A call that raises leaves the file system as it was.
\<close>

definition mkdir_error :: "fs \<Rightarrow> path \<Rightarrow> bool \<Rightarrow> exn" where
  "mkdir_error fs q is_last =
     (if is_last then FileExistsError
      else if path_exists fs q then NotADirectoryError
      else if too_many_links link_limit fs q then OSError
      else FileExistsError)"

fun mkdir_each :: "path list \<Rightarrow> fs \<Rightarrow> exn + fs" where
  "mkdir_each [] fs = Inr fs"
| "mkdir_each (q # qs) fs =
     (case lstat fs q of
        None \<Rightarrow> if too_long q then Inl OSError else mkdir_each qs (fs @ [(q, Directory)])
      | Some e \<Rightarrow> if path_is_dir fs q then mkdir_each qs fs
                  else Inl (mkdir_error fs q (qs = [])))"

definition mkdir_parents :: "path \<Rightarrow> fs \<Rightarrow> exn + fs" where
  "mkdir_parents p fs = mkdir_each (prefixes p) fs"

text \<open>
  \<open>shutil.copy2(src, dst)\<close>: a \<open>dst\<close> that is a directory stands for the file of the same
  name inside it; \<open>src\<close> is read and \<open>dst\<close> written through links; writing makes the file
  where its directory exists and replaces the content of a file that is there; a new
  file at a path that is too long is an \<open>OSError\<close>. Metadata is not modelled.
\<close>

fun write_target :: "nat \<Rightarrow> fs \<Rightarrow> path \<Rightarrow> path option" where
  "write_target 0 fs p = (case lstat fs p of Some (Symlink q) \<Rightarrow> None | _ \<Rightarrow> Some p)"
| "write_target (Suc n) fs p =
     (case lstat fs p of Some (Symlink q) \<Rightarrow> write_target n fs q | _ \<Rightarrow> Some p)"

definition copyfile :: "path \<Rightarrow> path \<Rightarrow> fs \<Rightarrow> exn + fs" where
  "copyfile src dst fs =
     (if stat fs src \<noteq> None \<and> map_option fst (stat fs src) = map_option fst (stat fs dst)
      then Inl SameFileError
      else case stat fs src of
        None \<Rightarrow> Inl FileNotFoundError
      | Some (s, Directory) \<Rightarrow> Inl PermissionError
      | Some (s, Symlink q) \<Rightarrow> Inl OSError
      | Some (s, File content) \<Rightarrow>
         (case write_target link_limit fs dst of
            None \<Rightarrow> Inl OSError
          | Some d \<Rightarrow>
             (case lstat fs d of
                Some Directory \<Rightarrow> Inl PermissionError
              | Some e \<Rightarrow> Inr (AList.update d (File content) fs)
              | None \<Rightarrow>
                 if too_long d then Inl OSError
                 else if path_is_dir fs (butlast d) then Inr (fs @ [(d, File content)])
                 else Inl FileNotFoundError)))"

definition copy2_fs :: "path \<Rightarrow> path \<Rightarrow> fs \<Rightarrow> exn + fs" where
  "copy2_fs src dst fs =
     (if path_is_dir fs dst \<and> src \<noteq> [] then copyfile src (dst @ [last src]) fs
      else copyfile src dst fs)"

text \<open>
  \<open>shutil.rmtree(path, ignore_errors=False)\<close> refuses a link, needs a directory, and removes
  the directory with everything below it.
\<close>

definition without_tree :: "path \<Rightarrow> fs \<Rightarrow> fs" where
  "without_tree p fs = filter (\<lambda>(q, e). \<not> prefix p q) fs"

definition rmtree_fs :: "path \<Rightarrow> fs \<Rightarrow> exn + fs" where
  "rmtree_fs p fs =
     (case lstat fs p of
        None \<Rightarrow> Inl FileNotFoundError
      | Some (Symlink q) \<Rightarrow> Inl OSError
      | Some (File c) \<Rightarrow> Inl NotADirectoryError
      | Some Directory \<Rightarrow> Inr (without_tree p fs))"


section \<open>Text helpers\<close>

text \<open>
  Strings are byte strings, the UTF-8 form of the text. \<open>str.strip()\<close> removes the white
  space of Unicode from both ends: the characters \<open>str.isspace()\<close> holds of, listed here
  by their bytes (U+0009 to U+000D, U+001C to U+0020, U+0085, U+00A0, U+1680, U+2000 to
  U+200A, U+2028, U+2029, U+202F, U+205F, U+3000). \<open>str.lower()\<close> is modelled on the ASCII
  letters, the ones the answers of this program are written in.
\<close>

definition white_space :: "string list" where
  "white_space =
     [[CHR 0x09], [CHR 0x0A], [CHR 0x0B], [CHR 0x0C], [CHR 0x0D],
      [CHR 0x1C], [CHR 0x1D], [CHR 0x1E], [CHR 0x1F], [CHR 0x20],
      [CHR 0xC2, CHR 0x85], [CHR 0xC2, CHR 0xA0], [CHR 0xE1, CHR 0x9A, CHR 0x80],
      [CHR 0xE2, CHR 0x80, CHR 0x80], [CHR 0xE2, CHR 0x80, CHR 0x81],
      [CHR 0xE2, CHR 0x80, CHR 0x82], [CHR 0xE2, CHR 0x80, CHR 0x83],
      [CHR 0xE2, CHR 0x80, CHR 0x84], [CHR 0xE2, CHR 0x80, CHR 0x85],
      [CHR 0xE2, CHR 0x80, CHR 0x86], [CHR 0xE2, CHR 0x80, CHR 0x87],
      [CHR 0xE2, CHR 0x80, CHR 0x88], [CHR 0xE2, CHR 0x80, CHR 0x89],
      [CHR 0xE2, CHR 0x80, CHR 0x8A], [CHR 0xE2, CHR 0x80, CHR 0xA8],
      [CHR 0xE2, CHR 0x80, CHR 0xA9], [CHR 0xE2, CHR 0x80, CHR 0xAF],
      [CHR 0xE2, CHR 0x81, CHR 0x9F], [CHR 0xE3, CHR 0x80, CHR 0x80]]"

text \<open>The length of the first of the given marks that a string starts with, or 0.\<close>

definition match_len :: "string list \<Rightarrow> string \<Rightarrow> nat" where
  "match_len marks s = (case find (\<lambda>m. prefix m s) marks of None \<Rightarrow> 0 | Some m \<Rightarrow> length m)"

function drop_marks :: "string list \<Rightarrow> string \<Rightarrow> string" where
  "drop_marks marks s =
     (if s \<noteq> [] \<and> match_len marks s \<noteq> 0 then drop_marks marks (drop (match_len marks s) s)
      else s)"
  by pat_completeness auto
termination
  by (relation "measure (\<lambda>(marks, s). length s)") auto

declare drop_marks.simps [simp del]

definition strip :: "string \<Rightarrow> string" where
  "strip s = rev (drop_marks (map rev white_space) (rev (drop_marks white_space s)))"

definition lower_char :: "char \<Rightarrow> char" where
  "lower_char c =
     (case map_of (zip ''ABCDEFGHIJKLMNOPQRSTUVWXYZ'' ''abcdefghijklmnopqrstuvwxyz'') c of
        None \<Rightarrow> c | Some l \<Rightarrow> l)"

definition lower :: "string \<Rightarrow> string" where
  "lower s = map lower_char s"

fun contains :: "string \<Rightarrow> string \<Rightarrow> bool" where
  "contains sub [] = (sub = [])"
| "contains sub (c # cs) = (prefix sub (c # cs) \<or> contains sub cs)"

text \<open>
  \<open>str.splitlines()\<close> ends a line at each of the line boundaries of Python (CR LF, LF,
  CR, VT, FF, FS, GS, RS, U+0085, U+2028, U+2029) and leaves the boundary out.
\<close>

definition line_breaks :: "string list" where
  "line_breaks =
     [[CHR 0x0D, CHR 0x0A], [CHR 0x0A], [CHR 0x0D], [CHR 0x0B], [CHR 0x0C],
      [CHR 0x1C], [CHR 0x1D], [CHR 0x1E], [CHR 0xC2, CHR 0x85],
      [CHR 0xE2, CHR 0x80, CHR 0xA8], [CHR 0xE2, CHR 0x80, CHR 0xA9]]"

function splitlines_acc :: "string \<Rightarrow> string \<Rightarrow> string list" where
  "splitlines_acc acc s =
     (if s = [] then (if acc = [] then [] else [rev acc])
      else if match_len line_breaks s \<noteq> 0
           then rev acc # splitlines_acc [] (drop (match_len line_breaks s) s)
           else splitlines_acc (hd s # acc) (tl s))"
  by pat_completeness auto
termination
  by (relation "measure (\<lambda>(acc, s). length s)") auto

declare splitlines_acc.simps [simp del]

definition splitlines :: "string \<Rightarrow> string list" where
  "splitlines s = splitlines_acc [] s"

section \<open>The world the program runs in\<close>

record completed =
  returncode :: int
  stdout :: string
  stderr :: string

text \<open>
  What the program does not contain is a parameter: the platform name, the programs it
  starts (\<open>robocopy\<close>, \<open>mklink\<close>, \<open>tasklist\<close>; starting one can raise, and running one
  can change the file system), the privilege query, \<open>Path.home()\<close>,
  \<open>Path.expanduser()\<close> and \<open>Path.resolve()\<close>, and the I/O errors (a locked file, a
  denied permission) that \<open>shutil.rmtree\<close> can meet part-way.
\<close>

record env =
  platform_system :: string
  home :: string
  expanduser :: "string \<Rightarrow> string"
  resolve :: "fs \<Rightarrow> string \<Rightarrow> path"
  is_user_an_admin :: "exn + bool"
  tasklist :: "exn + completed"
  robocopy :: "path \<Rightarrow> path \<Rightarrow> fs \<Rightarrow> (exn + completed) \<times> fs"
  mklink :: "path \<Rightarrow> path \<Rightarrow> fs \<Rightarrow> (exn + completed) \<times> fs"
  rmtree_fault :: "path \<Rightarrow> fs \<Rightarrow> (exn \<times> fs) option"

record dir_info =
  exists :: bool
  is_dir :: bool
  file_count :: int
  dir_count :: int
  total_size :: int
  is_empty :: bool

datatype title = Source_info | Source_info_created | Target_info

datatype question =
    Create_missing_source | Continue_with_empty_source | Confirm_overwrite
  | Confirm_link_only | Confirm_start

text \<open>
  Every line the program prints or shows, by the place it is printed at. The texts are
  Chinese in the source; a constructor stands for each, with the values the text embeds.
\<close>

datatype msg =
    Robocopy_start | Command "string list" | Stdout string | Copy_succeeded
  | Copy_failed int | Stderr string | Robocopy_not_found | Python_copy_start
  | Deleting_source path | Creating_junction path path | Junction_created
  | Info_header title | Info_path path | Info_missing | Info_type bool
  | Info_counts int int | Info_size string | Info_empty bool
  | Ask question string | Enter_yes_or_no
  | Ask_source "path option" | Ask_target "path option" | Path_invalid
  | Banner | Cancelled | Target_exists_menu | Ask_choice | Deleting_target path
  | Done_link_only | Invalid_choice
  | Preflight bool int | Sample_header | Sample_line string
  | Copy_error exn | Delete_error exn | No_junction_hint | Junction_error exn
  | Elevation_hint | Verified | Not_verified | All_done
  | Fill_in_source | Fill_in_target | Create_source_failed exn | Target_exists_warning

text \<open>
  The log holds, in order, what was printed or shown and every call that can change the
  file system, so that what a run did and did not attempt can be read off it.
\<close>

datatype event =
    Say msg
  | Mkdir path
  | Rmtree path
  | Copy2 path path
  | Robocopy path path
  | Mklink path path
  | Set_running bool

record world =
  files :: fs
  stdin :: "string list"
  out :: "event list"

text \<open>A statement either returns a value or raises, and leaves a world behind.\<close>

type_synonym 'a prog = "world \<Rightarrow> (exn + 'a) \<times> world"

definition return :: "'a \<Rightarrow> 'a prog" where
  "return x w = (Inr x, w)"

definition raise :: "exn \<Rightarrow> 'a prog" where
  "raise e w = (Inl e, w)"

definition bnd :: "'a prog \<Rightarrow> ('a \<Rightarrow> 'b prog) \<Rightarrow> 'b prog" where
  "bnd m f w = (case m w of (Inl e, w') \<Rightarrow> (Inl e, w') | (Inr x, w') \<Rightarrow> f x w')"

text \<open>\<open>try: m except Exception as exc: h exc\<close>\<close>

definition try_except :: "'a prog \<Rightarrow> (exn \<Rightarrow> 'a prog) \<Rightarrow> 'a prog" where
  "try_except m h w =
     (case m w of
        (Inl e, w') \<Rightarrow> if is_Exception e then h e w' else (Inl e, w')
      | (Inr x, w') \<Rightarrow> (Inr x, w'))"

definition record_event :: "event \<Rightarrow> world \<Rightarrow> world" where
  "record_event ev w = w\<lparr>out := out w @ [ev]\<rparr>"

definition say :: "msg \<Rightarrow> unit prog" where
  "say m w = (Inr (), record_event (Say m) w)"

fun say_all :: "msg list \<Rightarrow> unit prog" where
  "say_all [] = return ()"
| "say_all (m # ms) = bnd (say m) (\<lambda>_. say_all ms)"

text \<open>\<open>input(prompt)\<close> writes the prompt and reads a line; at the end of input it raises.\<close>

definition input :: "msg \<Rightarrow> string prog" where
  "input prompt w =
     (case stdin w of
        [] \<Rightarrow> (Inl EOFError, record_event (Say prompt) w)
      | line # rest \<Rightarrow> (Inr line, (record_event (Say prompt) w)\<lparr>stdin := rest\<rparr>))"

definition fs_op :: "event \<Rightarrow> (fs \<Rightarrow> exn + fs) \<Rightarrow> unit prog" where
  "fs_op ev f w =
     (case f (files w) of
        Inl e \<Rightarrow> (Inl e, record_event ev w)
      | Inr fs' \<Rightarrow> (Inr (), (record_event ev w)\<lparr>files := fs'\<rparr>))"

definition run_program :: "event \<Rightarrow> (fs \<Rightarrow> (exn + completed) \<times> fs) \<Rightarrow> completed prog" where
  "run_program ev f w = (case f (files w) of (r, fs') \<Rightarrow> (r, (record_event ev w)\<lparr>files := fs'\<rparr>))"

definition rmtree :: "env \<Rightarrow> path \<Rightarrow> unit prog" where
  "rmtree env p w =
     (case rmtree_fault env p (files w) of
        Some (e, fs') \<Rightarrow> (Inl e, (record_event (Rmtree p) w)\<lparr>files := fs'\<rparr>)
      | None \<Rightarrow> fs_op (Rmtree p) (rmtree_fs p) w)"

definition copy2 :: "path \<Rightarrow> path \<Rightarrow> unit prog" where
  "copy2 src dst = fs_op (Copy2 src dst) (copy2_fs src dst)"


section \<open>The operations (lines 19-207)\<close>

definition is_admin :: "env \<Rightarrow> bool prog" where
  "is_admin env =
     (case is_user_an_admin env of
        Inl e \<Rightarrow> if is_Exception e then return False else raise e
      | Inr b \<Rightarrow> return b)"

definition detect_lmstudio_processes :: "env \<Rightarrow> string list prog" where
  "detect_lmstudio_processes env =
     (case tasklist env of
        Inl e \<Rightarrow> if is_Exception e then return [] else raise e
      | Inr completed \<Rightarrow>
          return [line \<leftarrow> splitlines (stdout completed).
                    contains ''lmstudio'' (lower line) \<or> contains ''lm studio'' (lower line)])"

text \<open>
  A path that is a link to a directory is listed and walked as the directory it leads to:
  the inspection counts and measures what is below that directory.
\<close>

definition real_dir :: "fs \<Rightarrow> path \<Rightarrow> path" where
  "real_dir fs p = (case stat fs p of Some (q, e) \<Rightarrow> q | None \<Rightarrow> p)"

text \<open>
  \<open>walk_dir_size\<close>: the sizes of the files the walk lists, a file that \<open>stat\<close> fails on
  counting nothing.
\<close>

definition st_size :: "fs \<Rightarrow> path \<Rightarrow> int" where
  "st_size fs p = (case stat fs p of Some (q, File content) \<Rightarrow> int (length content) | _ \<Rightarrow> 0)"

definition walk_dir_size :: "fs \<Rightarrow> path \<Rightarrow> int" where
  "walk_dir_size fs directory =
     (\<Sum>(root_dir, dirs, names) \<leftarrow> os_walk fs (real_dir fs directory). \<Sum>file_name \<leftarrow> names. st_size fs (root_dir @ [file_name]))"

definition collect_dir_info :: "path \<Rightarrow> dir_info prog" where
  "collect_dir_info p w =
     (let info = \<lparr>exists = path_exists (files w) p, is_dir = path_is_dir (files w) p,
                  file_count = 0, dir_count = 0, total_size = 0, is_empty = True\<rparr>
      in if exists info \<and> is_dir info then
           let top_dir = real_dir (files w) p;
               fc = (\<Sum>(root_dir, dirs, names) \<leftarrow> os_walk (files w) top_dir. int (length names));
               dc = (\<Sum>(root_dir, dirs, names) \<leftarrow> os_walk (files w) top_dir. int (length dirs))
           in (Inr (info\<lparr>file_count := fc, dir_count := dc, is_empty := (fc = 0 \<and> dc = 0),
                          total_size := walk_dir_size (files w) p\<rparr>), w)
         else (Inr info, w))"

definition print_dir_info :: "title \<Rightarrow> path \<Rightarrow> dir_info \<Rightarrow> unit prog" where
  "print_dir_info title p info =
     bnd (say (Info_header title)) (\<lambda>_.
     bnd (say (Info_path p)) (\<lambda>_.
     if \<not> exists info then say Info_missing
     else
       bnd (say (Info_type (is_dir info))) (\<lambda>_.
       bnd (say (Info_counts (file_count info) (dir_count info))) (\<lambda>_.
       case format_bytes (total_size info) of
         Inl e \<Rightarrow> raise e
       | Inr text \<Rightarrow> bnd (say (Info_size text)) (\<lambda>_. say (Info_empty (is_empty info)))))))"

lemma input_stdin:
  "input prompt w = (Inr line, w') \<Longrightarrow> length (stdin w') < length (stdin w)"
  by (auto simp: input_def record_event_def split: list.splits)

lemma say_stdin: "say m w = (r, w') \<Longrightarrow> stdin w' = stdin w"
  by (auto simp: say_def record_event_def)

definition yes_answers :: "string list" where
  "yes_answers = [''y'', ''yes'', [CHR 0xE6, CHR 0x98, CHR 0xAF], [CHR 0xE5, CHR 0xA5, CHR 0xBD],
                  [CHR 0xE7, CHR 0xA1, CHR 0xAE, CHR 0xE8, CHR 0xAE, CHR 0xA4]]"

definition no_answers :: "string list" where
  "no_answers = [''n'', ''no'', [CHR 0xE5, CHR 0x90, CHR 0xA6], [CHR 0xE4, CHR 0xB8, CHR 0x8D],
                 [CHR 0xE5, CHR 0x8F, CHR 0x96, CHR 0xE6, CHR 0xB6, CHR 0x88]]"

function ask_yes_no :: "question \<Rightarrow> string option \<Rightarrow> bool prog" where
  "ask_yes_no prompt dflt w =
     (case input (Ask prompt (if dflt \<in> {None, Some ''y'', Some ''Y''} then '' [Y/n]'' else '' [y/N]'')) w of
        (Inl e, w1) \<Rightarrow> (Inl e, w1)
      | (Inr line, w1) \<Rightarrow>
          let answer = lower (strip line)
          in if answer = [] \<and> dflt \<noteq> None then (Inr (lower (the dflt) = ''y''), w1)
             else if answer \<in> set yes_answers then (Inr True, w1)
             else if answer \<in> set no_answers then (Inr False, w1)
             else case say Enter_yes_or_no w1 of
                    (Inl e, w2) \<Rightarrow> (Inl e, w2)
                  | (Inr u, w2) \<Rightarrow> ask_yes_no prompt dflt w2)"
  by pat_completeness auto
termination
  by (relation "measure (\<lambda>(prompt, dflt, w). length (stdin w))")
     (auto dest!: input_stdin [OF sym] say_stdin [OF sym])

declare ask_yes_no.simps [simp del]

function prompt_for_path :: "env \<Rightarrow> (path option \<Rightarrow> msg) \<Rightarrow> path option \<Rightarrow> path prog" where
  "prompt_for_path env prompt dflt w =
     (case input (prompt dflt) w of
        (Inl e, w1) \<Rightarrow> (Inl e, w1)
      | (Inr line, w1) \<Rightarrow>
          let typed = strip line
          in if typed = [] \<and> dflt \<noteq> None then (Inr (the dflt), w1)
             else let candidate = resolve env (files w1) (expanduser env typed)
                  in if path_str candidate \<noteq> [] then (Inr candidate, w1)
                     else case say Path_invalid w1 of
                            (Inl e, w2) \<Rightarrow> (Inl e, w2)
                          | (Inr u, w2) \<Rightarrow> prompt_for_path env prompt dflt w2)"
  by pat_completeness auto
termination
  by (relation "measure (\<lambda>(env, prompt, dflt, w). length (stdin w))")
     (auto dest!: input_stdin [OF sym] say_stdin [OF sym])

declare prompt_for_path.simps [simp del]

definition ensure_directory :: "path \<Rightarrow> unit prog" where
  "ensure_directory p = fs_op (Mkdir p) (mkdir_parents p)"

definition run_robocopy :: "env \<Rightarrow> path \<Rightarrow> path \<Rightarrow> bool prog" where
  "run_robocopy env source target =
     bnd (say Robocopy_start) (\<lambda>_.
     bnd (say (Command [''robocopy'', path_str source, path_str target,
                        ''/E'', ''/COPYALL'', ''/R:1'', ''/W:1''])) (\<lambda>_ w.
     case run_program (Robocopy source target) (robocopy env source target) w of
       (Inl e, w1) \<Rightarrow>
         if e = FileNotFoundError then bnd (say Robocopy_not_found) (\<lambda>_. return False) w1
         else (Inl e, w1)
     | (Inr completed, w1) \<Rightarrow>
         bnd (say (Stdout (stdout completed))) (\<lambda>_.
         if returncode completed \<le> 7 then bnd (say Copy_succeeded) (\<lambda>_. return True)
         else
           bnd (say (Copy_failed (returncode completed))) (\<lambda>_.
           bnd (say (Stderr (stderr completed))) (\<lambda>_. return False))) w1))"

text \<open>
  The fallback of \<open>copy_directory\<close> (lines 171-179) walks the source while it writes the
  target, and \<open>os.walk\<close> lists a directory only when it reaches it: the walk is a stack
  of directories still to visit, each listed in the file system as it is then. The loop
  over \<open>files\<close> runs over the list made at that moment; \<open>to_path.exists()\<close> raises an
  \<open>OSError\<close> on a path that is too long.
\<close>

definition relpath :: "path \<Rightarrow> path \<Rightarrow> path" where
  "relpath p start = drop (length start) p"

fun copy_files :: "path \<Rightarrow> path \<Rightarrow> string list \<Rightarrow> unit prog" where
  "copy_files root_dir dest_root [] = return ()"
| "copy_files root_dir dest_root (file_name # names) =
     (\<lambda>w. if too_long (dest_root @ [file_name]) then raise OSError w
          else if \<not> path_exists (files w) (dest_root @ [file_name])
          then bnd (copy2 (root_dir @ [file_name]) (dest_root @ [file_name]))
                   (\<lambda>_. copy_files root_dir dest_root names) w
          else copy_files root_dir dest_root names w)"

definition copy_visit :: "path \<Rightarrow> path \<Rightarrow> path \<Rightarrow> string list \<Rightarrow> unit prog" where
  "copy_visit source target root_dir names =
     (let rel_root = relpath root_dir source;
          dest_root = (if rel_root \<noteq> [] then target @ rel_root else target)
      in bnd (ensure_directory dest_root) (\<lambda>_. copy_files root_dir dest_root names))"

partial_function (option) copy_walk ::
  "path \<Rightarrow> path \<Rightarrow> path list \<Rightarrow> world \<Rightarrow> ((exn + unit) \<times> world) option" where
  "copy_walk source target stack w =
     (case stack of
        [] \<Rightarrow> Some (Inr (), w)
      | root_dir # rest \<Rightarrow>
          if \<not> path_is_dir (files w) root_dir then copy_walk source target rest w
          else case copy_visit source target root_dir (scan_files (files w) root_dir) w of
                 (Inl e, w1) \<Rightarrow> Some (Inl e, w1)
               | (Inr u, w1) \<Rightarrow> copy_walk source target (walk_into (files w) root_dir @ rest) w1)"

declare copy_walk.simps [code]

definition copy_directory ::
  "env \<Rightarrow> path \<Rightarrow> path \<Rightarrow> world \<Rightarrow> ((exn + unit) \<times> world) option" where
  "copy_directory env source target w =
     (case ensure_directory target w of
        (Inl e, w1) \<Rightarrow> Some (Inl e, w1)
      | (Inr u, w1) \<Rightarrow>
         (case run_robocopy env source target w1 of
            (Inl e, w2) \<Rightarrow> Some (Inl e, w2)
          | (Inr used_robocopy, w2) \<Rightarrow>
              if used_robocopy then Some (Inr (), w2)
              else case say Python_copy_start w2 of
                     (Inl e, w3) \<Rightarrow> Some (Inl e, w3)
                   | (Inr u, w3) \<Rightarrow> copy_walk source target [source] w3))"

definition delete_directory :: "env \<Rightarrow> path \<Rightarrow> unit prog" where
  "delete_directory env p =
     (\<lambda>w. if \<not> path_exists (files w) p then return () w
          else bnd (say (Deleting_source p)) (\<lambda>_. rmtree env p) w)"

definition create_junction :: "env \<Rightarrow> path \<Rightarrow> path \<Rightarrow> unit prog" where
  "create_junction env link_path target_path =
     (\<lambda>w. if path_exists (files w) link_path \<or> path_is_symlink (files w) link_path
          then raise (RuntimeError_link_exists link_path) w
          else
            bnd (say (Creating_junction link_path target_path)) (\<lambda>_.
            bnd (run_program (Mklink link_path target_path) (mklink env link_path target_path))
              (\<lambda>completed.
            if returncode completed \<noteq> 0
            then raise (RuntimeError_mklink_failed (strip (stdout completed))
                                                   (strip (stderr completed)))
            else say Junction_created)) w)"

definition ensure_windows :: "env \<Rightarrow> unit prog" where
  "ensure_windows env =
     (if lower (platform_system env) \<noteq> ''windows'' then raise SystemExit else return ())"


section \<open>The command-line run (\<open>run_cli\<close>, lines 210-321)\<close>

lemma say_all_stdin: "say_all ms w = (r, w') \<Longrightarrow> stdin w' = stdin w"
proof (induction ms arbitrary: w)
  case Nil
  then show ?case by (simp add: return_def)
next
  case (Cons m ms)
  then show ?case by (auto simp: bnd_def say_def record_event_def)
qed

lemma print_dir_info_stdin: "print_dir_info title p info w = (r, w') \<Longrightarrow> stdin w' = stdin w"
  by (auto simp: print_dir_info_def bnd_def say_def record_event_def raise_def
           split: if_splits sum.splits)

lemma collect_dir_info_world: "collect_dir_info p w = (r, w') \<Longrightarrow> w' = w"
  by (auto simp: collect_dir_info_def Let_def split: if_splits)

lemma ask_yes_no_stdin:
  "ask_yes_no prompt dflt w = (r, w') \<Longrightarrow> length (stdin w') \<le> length (stdin w)"
proof (induction prompt dflt w rule: ask_yes_no.induct)
  case (1 prompt dflt w)
  let ?m = "Ask prompt (if dflt \<in> {None, Some ''y'', Some ''Y''} then '' [Y/n]'' else '' [y/N]'')"
  obtain x w1 where inp: "input ?m w = (x, w1)" by (cases "input ?m w")
  have le: "length (stdin w1) \<le> length (stdin w)"
    using inp by (auto simp: input_def record_event_def split: list.splits)
  show ?case
  proof (cases x)
    case (Inl e)
    then show ?thesis using "1.prems" inp le by (subst (asm) ask_yes_no.simps) auto
  next
    case (Inr line)
    show ?thesis
    proof (cases "\<not> (lower (strip line) = [] \<and> dflt \<noteq> None) \<and> lower (strip line) \<notin> set yes_answers
                  \<and> lower (strip line) \<notin> set no_answers")
      case False
      then show ?thesis using "1.prems" inp Inr le
        by (subst (asm) ask_yes_no.simps) (auto simp: Let_def split: if_splits)
    next
      case True
      obtain w2 where s: "say Enter_yes_or_no w1 = (Inr (), w2)" by (simp add: say_def)
      then have eq: "stdin w2 = stdin w1" by (rule say_stdin)
      have "ask_yes_no prompt dflt w2 = (r, w')"
        using "1.prems" inp Inr True s
        by (subst (asm) ask_yes_no.simps) (auto simp: Let_def split: if_splits)
      then have "length (stdin w') \<le> length (stdin w2)"
        using "1.IH" [OF inp [symmetric] Inr refl _ _ _ s [symmetric] refl] True by simp
      then show ?thesis using eq le by simp
    qed
  qed
qed

lemma prompt_for_path_stdin:
  "prompt_for_path env prompt dflt w = (Inr p, w') \<Longrightarrow> length (stdin w') < length (stdin w)"
proof (induction env prompt dflt w rule: prompt_for_path.induct)
  case (1 env prompt dflt w)
  obtain x w1 where inp: "input (prompt dflt) w = (x, w1)" by (cases "input (prompt dflt) w")
  show ?case
  proof (cases x)
    case (Inl e)
    then show ?thesis using "1.prems" inp by (subst (asm) prompt_for_path.simps) auto
  next
    case (Inr line)
    then have lt: "length (stdin w1) < length (stdin w)" using inp by (auto dest: input_stdin)
    let ?c = "resolve env (files w1) (expanduser env (strip line))"
    show ?thesis
    proof (cases "\<not> (strip line = [] \<and> dflt \<noteq> None) \<and> path_str ?c = []")
      case False
      then show ?thesis using "1.prems" inp Inr lt
        by (subst (asm) prompt_for_path.simps) (auto simp: Let_def split: if_splits)
    next
      case True
      obtain w2 where s: "say Path_invalid w1 = (Inr (), w2)" by (simp add: say_def)
      then have eq: "stdin w2 = stdin w1" by (rule say_stdin)
      have "prompt_for_path env prompt dflt w2 = (Inr p, w')"
        using "1.prems" inp Inr True s
        by (subst (asm) prompt_for_path.simps) (auto simp: Let_def split: if_splits)
      then have "length (stdin w') < length (stdin w2)"
        using "1.IH" [OF inp [symmetric] Inr refl _ refl _ s [symmetric] refl] True by simp
      then show ?thesis using eq lt by simp
    qed
  qed
qed

text \<open>
  The link-only branch (lines 262-266 of the menu, lines 527-532 of the worker): remove
  the source, then make the junction at its place; nothing here is inside a \<open>try\<close>.
\<close>

definition link_only_steps :: "env \<Rightarrow> path \<Rightarrow> path \<Rightarrow> unit prog" where
  "link_only_steps env source_dir target_dir =
     bnd (\<lambda>w. if path_exists (files w) source_dir then delete_directory env source_dir w
               else return () w) (\<lambda>_.
     bnd (create_junction env source_dir target_dir) (\<lambda>_. say Done_link_only))"

text \<open>Removing the target that is to be overwritten (lines 256-257 and 536-537).\<close>

definition delete_target :: "env \<Rightarrow> path \<Rightarrow> unit prog" where
  "delete_target env target_dir =
     bnd (say (Deleting_target target_dir)) (\<lambda>_. rmtree env target_dir)"

text \<open>
  The loop of lines 239-276 leaves with one of four outcomes: the target does not exist
  (\<open>break\<close> at line 276), the target is to be removed first (choice 2), the copy is to
  be skipped (choice 3), or the user quits (choice 4). The two choices that act before
  leaving the loop (lines 256-258 and 262-267) act right after it here, in \<open>run_cli\<close>.
\<close>

datatype policy =
    Proceed_fresh path
  | Overwrite_existing path
  | Link_only_to_existing path
  | Abort

function choose_target :: "env \<Rightarrow> path \<Rightarrow> policy prog" where
  "choose_target env default_target w =
     (case prompt_for_path env Ask_target (Some default_target) w of
        (Inl e, w1) \<Rightarrow> (Inl e, w1)
      | (Inr target_dir, w1) \<Rightarrow>
     (case collect_dir_info target_dir w1 of
        (Inl e, w2) \<Rightarrow> (Inl e, w2)
      | (Inr target_info, w2) \<Rightarrow>
     (case print_dir_info Target_info target_dir target_info w2 of
        (Inl e, w3) \<Rightarrow> (Inl e, w3)
      | (Inr u, w3) \<Rightarrow>
          if exists target_info then
            (case say Target_exists_menu w3 of
               (Inl e, w4) \<Rightarrow> (Inl e, w4)
             | (Inr u, w4) \<Rightarrow>
            (case input Ask_choice w4 of
               (Inl e, w5) \<Rightarrow> (Inl e, w5)
             | (Inr line, w5) \<Rightarrow>
                 let choice = strip line
                 in if choice = ''1'' then choose_target env default_target w5
                    else if choice = ''2'' then
                      (case ask_yes_no Confirm_overwrite (Some ''n'') w5 of
                         (Inl e, w6) \<Rightarrow> (Inl e, w6)
                       | (Inr confirmed, w6) \<Rightarrow>
                           if \<not> confirmed then choose_target env default_target w6
                           else (Inr (Overwrite_existing target_dir), w6))
                    else if choice = ''3'' then
                      (case ask_yes_no Confirm_link_only (Some ''n'') w5 of
                         (Inl e, w6) \<Rightarrow> (Inl e, w6)
                       | (Inr confirmed, w6) \<Rightarrow>
                           if \<not> confirmed then choose_target env default_target w6
                           else (Inr (Link_only_to_existing target_dir), w6))
                    else if choice = ''4'' then bnd (say Cancelled) (\<lambda>_. return Abort) w5
                    else
                      (case say Invalid_choice w5 of
                         (Inl e, w6) \<Rightarrow> (Inl e, w6)
                       | (Inr u, w6) \<Rightarrow> choose_target env default_target w6)))
          else (Inr (Proceed_fresh target_dir), w3))))"
  by pat_completeness auto
termination
proof (relation "measure (\<lambda>(env, default_target, w). length (stdin w))", goal_cases)
  case 1
  show ?case by simp
next
  case (2 env default_target w x y target_dir x2 y2 target_info x3 y3 u x4 y4 u4 x5 y5 line)
  then show ?case
    by (auto dest!: prompt_for_path_stdin [OF sym] collect_dir_info_world [OF sym]
                    print_dir_info_stdin [OF sym] say_stdin [OF sym] input_stdin [OF sym])
next
  case (3 env default_target w x y target_dir x2 y2 target_info x3 y3 u x4 y4 u4 x5 y5 line
          choice x6 y6 confirmed)
  then show ?case
    by (auto dest!: prompt_for_path_stdin [OF sym] collect_dir_info_world [OF sym]
                    print_dir_info_stdin [OF sym] say_stdin [OF sym] input_stdin [OF sym]
                    ask_yes_no_stdin [OF sym])
next
  case (4 env default_target w x y target_dir x2 y2 target_info x3 y3 u x4 y4 u4 x5 y5 line
          choice x6 y6 confirmed)
  then show ?case
    by (auto dest!: prompt_for_path_stdin [OF sym] collect_dir_info_world [OF sym]
                    print_dir_info_stdin [OF sym] say_stdin [OF sym] input_stdin [OF sym]
                    ask_yes_no_stdin [OF sym])
next
  case (5 env default_target w x y target_dir x2 y2 target_info x3 y3 u x4 y4 u4 x5 y5 line
          choice x6 y6 u6)
  then show ?case
    by (auto dest!: prompt_for_path_stdin [OF sym] collect_dir_info_world [OF sym]
                    print_dir_info_stdin [OF sym] say_stdin [OF sym] input_stdin [OF sym])
qed

declare choose_target.simps [simp del]

text \<open>
  Lines 212-276 without the two actions: the source directory and what the user decided
  about the target, or \<open>None\<close> where \<open>run_cli\<close> returned before asking for the target.
\<close>

definition cli_decide :: "env \<Rightarrow> (path \<times> policy) option prog" where
  "cli_decide env =
     bnd (ensure_windows env) (\<lambda>_.
     bnd (say Banner) (\<lambda>_ w0.
     let default_source = resolve env (files w0) (home env @ ''/.lmstudio'');
         default_target = resolve env (files w0) ''D:/LMstudio_AIModels''
     in
       bnd (prompt_for_path env Ask_source (Some default_source)) (\<lambda>source_dir.
       bnd (collect_dir_info source_dir) (\<lambda>source_info.
       bnd (print_dir_info Source_info source_dir source_info) (\<lambda>_.
       bnd (if \<not> exists source_info then
              bnd (ask_yes_no Create_missing_source (Some ''y'')) (\<lambda>yes.
              if yes then
                bnd (ensure_directory source_dir) (\<lambda>_.
                bnd (collect_dir_info source_dir) (\<lambda>info.
                bnd (print_dir_info Source_info_created source_dir info) (\<lambda>_.
                return (Some info))))
              else bnd (say Cancelled) (\<lambda>_. return None))
            else return (Some source_info)) (\<lambda>known.
       case known of
         None \<Rightarrow> return None
       | Some source_info \<Rightarrow>
       bnd (if exists source_info \<and> is_dir source_info \<and> is_empty source_info then
              bnd (ask_yes_no Continue_with_empty_source (Some ''n'')) (\<lambda>yes.
              if \<not> yes then bnd (say Cancelled) (\<lambda>_. return False) else return True)
            else return True) (\<lambda>continue.
       if \<not> continue then return None
       else
       bnd (choose_target env default_target) (\<lambda>chosen.
       return (Some (source_dir, chosen)))))))) w0))"

text \<open>Lines 278-290: the advisory checks and the last confirmation.\<close>

definition preflight :: "env \<Rightarrow> unit prog" where
  "preflight env =
     bnd (is_admin env) (\<lambda>admin_ok.
     bnd (detect_lmstudio_processes env) (\<lambda>procs.
     bnd (say (Preflight admin_ok (int (length procs)))) (\<lambda>_.
     if procs \<noteq> [] then
       bnd (say Sample_header) (\<lambda>_. say_all (map Sample_line (take 5 procs)))
     else return ())))"

text \<open>Lines 299-321: what follows a copy that returned.\<close>

definition cli_after_copy :: "env \<Rightarrow> path \<Rightarrow> path \<Rightarrow> unit prog" where
  "cli_after_copy env source_dir target_dir w =
     (case delete_directory env source_dir w of
        (Inl e, w1) \<Rightarrow>
          if is_Exception e then say_all [Delete_error e, No_junction_hint] w1 else (Inl e, w1)
      | (Inr u, w1) \<Rightarrow>
         (case create_junction env source_dir target_dir w1 of
            (Inl e, w2) \<Rightarrow>
              if is_Exception e then say_all [Junction_error e, Elevation_hint] w2
              else (Inl e, w2)
          | (Inr u, w2) \<Rightarrow>
              bnd (if path_exists (files w2) source_dir \<and> path_is_dir (files w2) source_dir
                   then say Verified else say Not_verified) (\<lambda>_. say All_done) w2))"

text \<open>Lines 292-321: the copy, and what follows it.\<close>

definition cli_execute ::
  "env \<Rightarrow> path \<Rightarrow> path \<Rightarrow> world \<Rightarrow> ((exn + unit) \<times> world) option" where
  "cli_execute env source_dir target_dir w =
     (case copy_directory env source_dir target_dir w of
        None \<Rightarrow> None
      | Some (Inl e, w1) \<Rightarrow>
          Some (if is_Exception e then say (Copy_error e) w1 else (Inl e, w1))
      | Some (Inr u, w1) \<Rightarrow> Some (cli_after_copy env source_dir target_dir w1))"

text \<open>Lines 278-321.\<close>

definition cli_confirm ::
  "env \<Rightarrow> path \<Rightarrow> path \<Rightarrow> world \<Rightarrow> ((exn + unit) \<times> world) option" where
  "cli_confirm env source_dir target_dir w =
     (case bnd (preflight env) (\<lambda>_. ask_yes_no Confirm_start (Some ''n'')) w of
        (Inl e, w1) \<Rightarrow> Some (Inl e, w1)
      | (Inr yes, w1) \<Rightarrow>
          if \<not> yes then Some (say Cancelled w1)
          else cli_execute env source_dir target_dir w1)"

definition run_cli :: "env \<Rightarrow> world \<Rightarrow> ((exn + unit) \<times> world) option" where
  "run_cli env w =
     (case cli_decide env w of
        (Inl e, w1) \<Rightarrow> Some (Inl e, w1)
      | (Inr None, w1) \<Rightarrow> Some (Inr (), w1)
      | (Inr (Some (source_dir, chosen)), w1) \<Rightarrow>
         (case chosen of
            Abort \<Rightarrow> Some (Inr (), w1)
          | Link_only_to_existing target_dir \<Rightarrow>
              Some (link_only_steps env source_dir target_dir w1)
          | Overwrite_existing target_dir \<Rightarrow>
             (case delete_target env target_dir w1 of
                (Inl e, w2) \<Rightarrow> Some (Inl e, w2)
              | (Inr u, w2) \<Rightarrow> cli_confirm env source_dir target_dir w2)
          | Proceed_fresh target_dir \<Rightarrow> cli_confirm env source_dir target_dir w1))"

section \<open>The graphical run (\<open>MoveApp._start\<close> and its worker, lines 461-546)\<close>

text \<open>
  The form holds the two path fields and the two check boxes. The answers are what the
  user replies to each of the four yes/no dialogs, should it be shown.
\<close>

record form =
  source_var :: string
  target_var :: string
  overwrite_var :: bool
  link_only_var :: bool

record answers =
  create_source :: bool
  continue_empty :: bool
  overwrite_confirmed :: bool
  start_confirmed :: bool

definition askyesno :: "question \<Rightarrow> bool \<Rightarrow> bool prog" where
  "askyesno q answer = bnd (say (Ask q [])) (\<lambda>_. return answer)"

text \<open>
  Lines 463-520: the checks and dialogs before the worker starts. The result is the pair
  of paths the worker gets, or \<open>None\<close> where \<open>_start\<close> has returned.
\<close>

definition gui_prepare :: "env \<Rightarrow> form \<Rightarrow> answers \<Rightarrow> (path \<times> path) option prog" where
  "gui_prepare env f ans =
     bnd (ensure_windows env) (\<lambda>_ w0.
     let source = resolve env (files w0) (expanduser env (source_var f));
         target = resolve env (files w0) (expanduser env (target_var f))
     in
       (if path_str source = [] then bnd (say Fill_in_source) (\<lambda>_. return None)
        else if path_str target = [] then bnd (say Fill_in_target) (\<lambda>_. return None)
        else
        bnd (collect_dir_info source) (\<lambda>si.
        bnd (collect_dir_info target) (\<lambda>ti.
        bnd (if \<not> exists si then
               bnd (askyesno Create_missing_source (create_source ans)) (\<lambda>yes.
               if \<not> yes then return None
               else
                 bnd (try_except (bnd (ensure_directory source) (\<lambda>_. return True))
                        (\<lambda>exc. bnd (say (Create_source_failed exc)) (\<lambda>_. return False)))
                   (\<lambda>made.
                 if \<not> made then return None
                 else bnd (collect_dir_info source) (\<lambda>info. return (Some info))))
             else return (Some si)) (\<lambda>known.
        case known of
          None \<Rightarrow> return None
        | Some si \<Rightarrow>
        bnd (if is_dir si \<and> is_empty si
             then askyesno Continue_with_empty_source (continue_empty ans)
             else return True) (\<lambda>continue.
        if \<not> continue then return None
        else
        bnd (if \<not> link_only_var f \<and> exists ti then
               if overwrite_var f then askyesno Confirm_overwrite (overwrite_confirmed ans)
               else bnd (say Target_exists_warning) (\<lambda>_. return False)
             else return True) (\<lambda>continue.
        if \<not> continue then return None
        else
        bnd (preflight env) (\<lambda>_.
        bnd (askyesno Confirm_start (start_confirmed ans)) (\<lambda>yes.
        if \<not> yes then return None else return (Some (source, target)))))))))) w0)"

text \<open>Lines 534-537: the worker removes a target that is to be overwritten.\<close>

definition clear_target :: "env \<Rightarrow> bool \<Rightarrow> path \<Rightarrow> unit prog" where
  "clear_target env overwrite target w =
     (if overwrite \<and> path_exists (files w) target then delete_target env target w
      else return () w)"

text \<open>
  The worker (lines 524-544). An exception ends the thread; \<open>finally\<close> runs in every
  case.
\<close>

definition gui_worker ::
  "env \<Rightarrow> path \<Rightarrow> path \<Rightarrow> bool \<Rightarrow> bool \<Rightarrow> world \<Rightarrow> ((exn + unit) \<times> world) option" where
  "gui_worker env source target link_only overwrite w =
     map_option (\<lambda>(r, w'). (r, record_event (Set_running False) w'))
       (if link_only then Some (link_only_steps env source target w)
        else
          case clear_target env overwrite target w of
            (Inl e, w1) \<Rightarrow> Some (Inl e, w1)
          | (Inr u, w1) \<Rightarrow>
             (case copy_directory env source target w1 of
                None \<Rightarrow> None
              | Some (Inl e, w2) \<Rightarrow> Some (Inl e, w2)
              | Some (Inr u, w2) \<Rightarrow>
                  Some (bnd (delete_directory env source) (\<lambda>_.
                        bnd (create_junction env source target) (\<lambda>_. say All_done)) w2)))"

definition gui_start ::
  "env \<Rightarrow> form \<Rightarrow> answers \<Rightarrow> world \<Rightarrow> ((exn + unit) \<times> world) option" where
  "gui_start env f ans w =
     (case gui_prepare env f ans w of
        (Inl e, w1) \<Rightarrow> Some (Inl e, w1)
      | (Inr None, w1) \<Rightarrow> Some (Inr (), w1)
      | (Inr (Some (source, target)), w1) \<Rightarrow>
          gui_worker env source target (link_only_var f) (overwrite_var f)
            (record_event (Set_running True) w1))"


section \<open>Points of a run\<close>

text \<open>
  The world in which a run reaches the copy (line 294, line 539), with the two paths it
  copies between; \<open>None\<close> for a run that does not get there.
\<close>

definition cli_copy_start :: "env \<Rightarrow> world \<Rightarrow> (path \<times> path \<times> world) option" where
  "cli_copy_start env w =
     (case cli_decide env w of
        (Inr (Some (source_dir, chosen)), w1) \<Rightarrow>
          (case (case chosen of
                   Proceed_fresh target_dir \<Rightarrow> Some (target_dir, (Inr (), w1))
                 | Overwrite_existing target_dir \<Rightarrow>
                     Some (target_dir, delete_target env target_dir w1)
                 | _ \<Rightarrow> None) of
             Some (target_dir, (Inr u, w2)) \<Rightarrow>
               (case bnd (preflight env) (\<lambda>_. ask_yes_no Confirm_start (Some ''n'')) w2 of
                  (Inr True, w3) \<Rightarrow> Some (source_dir, target_dir, w3)
                | _ \<Rightarrow> None)
           | _ \<Rightarrow> None)
      | _ \<Rightarrow> None)"

definition gui_copy_start ::
  "env \<Rightarrow> form \<Rightarrow> answers \<Rightarrow> world \<Rightarrow> (path \<times> path \<times> world) option" where
  "gui_copy_start env f ans w =
     (case gui_prepare env f ans w of
        (Inr (Some (source, target)), w1) \<Rightarrow>
          if link_only_var f then None
          else (case clear_target env (overwrite_var f) target
                       (record_event (Set_running True) w1) of
                  (Inr u, w2) \<Rightarrow> Some (source, target, w2)
                | _ \<Rightarrow> None)
      | _ \<Rightarrow> None)"

text \<open>A path is resolved when it is a result of \<open>Path.resolve()\<close>.\<close>

definition resolved :: "env \<Rightarrow> path \<Rightarrow> bool" where
  "resolved env p = (\<exists>fs typed. p = resolve env fs typed)"

text \<open>The target directory a policy names.\<close>

fun target_of :: "policy \<Rightarrow> path option" where
  "target_of (Proceed_fresh target_dir) = Some target_dir"
| "target_of (Overwrite_existing target_dir) = Some target_dir"
| "target_of (Link_only_to_existing target_dir) = Some target_dir"
| "target_of Abort = None"

text \<open>No entry at or below a directory is a link.\<close>

definition is_link :: "entry \<Rightarrow> bool" where
  "is_link e = (case e of Symlink q \<Rightarrow> True | _ \<Rightarrow> False)"

definition no_links_below :: "path \<Rightarrow> fs \<Rightarrow> bool" where
  "no_links_below d fs = (\<forall>(p, e) \<in> set fs. prefix d p \<longrightarrow> \<not> is_link e)"

text \<open>
  One file system grows into another when the second is the first with entries added at
  paths that held nothing; it adds near a directory when the added entries are no links
  and sit at that directory, above it or below it.
\<close>

definition grows :: "fs \<Rightarrow> fs \<Rightarrow> bool" where
  "grows fs fs' = (\<exists>new. fs' = fs @ new \<and> (\<forall>(p, e) \<in> set new. lstat fs p = None))"

definition adds_near :: "path \<Rightarrow> fs \<Rightarrow> fs \<Rightarrow> bool" where
  "adds_near t fs fs' =
     (\<exists>new. fs' = fs @ new \<and> (\<forall>(p, e) \<in> set new. (prefix p t \<or> prefix t p) \<and> \<not> is_link e))"

section \<open>Example worlds\<close>

text \<open>The concrete environments and worlds the theorems below are tried on.\<close>

definition occupied_world :: world where
  "occupied_world =
     \<lparr>files = [([''home''], Directory), ([''home'', ''models''], File ''x'')],
      stdin = [], out = []\<rparr>"

definition plain_env :: env where
  "plain_env =
     \<lparr>platform_system = ''Windows'', home = ''/home'', expanduser = (\<lambda>s. s),
      resolve = (\<lambda>fs s. [s]), is_user_an_admin = Inr True,
      tasklist = Inr \<lparr>returncode = 0, stdout = [], stderr = []\<rparr>,
      robocopy = (\<lambda>s t fs. (Inl FileNotFoundError, fs)),
      mklink = (\<lambda>l t fs. (Inr \<lparr>returncode = 0, stdout = [], stderr = []\<rparr>, fs @ [(l, Symlink t)])),
      rmtree_fault = (\<lambda>p fs. None)\<rparr>"

definition dangling_world :: world where
  "dangling_world =
     \<lparr>files = [([''home''], Directory), ([''home'', ''models''], Symlink [''gone''])],
      stdin = [], out = []\<rparr>"

definition exit8_env :: env where
  "exit8_env =
     plain_env\<lparr>robocopy := (\<lambda>s t fs. (Inr \<lparr>returncode = 8, stdout = [], stderr = ''ERROR''\<rparr>, fs))\<rparr>"

text \<open>A \<open>robocopy\<close> that writes the first three bytes of \<open>a.bin\<close> and gives up.\<close>

definition partial_env :: env where
  "partial_env =
     plain_env\<lparr>robocopy :=
       (\<lambda>s t fs. (Inr \<lparr>returncode = 8, stdout = [], stderr = ''ERROR''\<rparr>,
                   fs @ [(t @ [''a.bin''], File ''wei'')]))\<rparr>"

definition models_world :: world where
  "models_world =
     \<lparr>files = [([''models''], Directory), ([''models'', ''a.bin''], File ''weights'')],
      stdin = [], out = []\<rparr>"

definition denied_env :: env where
  "denied_env = plain_env\<lparr>robocopy := (\<lambda>s t fs. (Inl PermissionError, fs))\<rparr>"

definition typed_fresh :: world where
  "typed_fresh = models_world\<lparr>stdin := [''models'', ''backup'', ''y'']\<rparr>"

definition filled_form :: form where
  "filled_form =
     \<lparr>source_var = ''models'', target_var = ''backup'', overwrite_var = False,
      link_only_var = False\<rparr>"

definition all_yes :: answers where
  "all_yes =
     \<lparr>create_source = True, continue_empty = True, overwrite_confirmed = True,
      start_confirmed = True\<rparr>"

definition cli_prelude :: "event list" where
  "cli_prelude =
     [Say Banner, Say (Ask_source (Some [''/home/.lmstudio''])),
      Say (Info_header Source_info), Say (Info_path [''models'']), Say (Info_type True),
      Say (Info_counts 1 0), Say (Info_size ''7.00 B''), Say (Info_empty False),
      Say (Ask_target (Some [''D:/LMstudio_AIModels''])), Say (Info_header Target_info),
      Say (Info_path [''backup'']), Say Info_missing, Say (Preflight True 0),
      Say (Ask Confirm_start '' [y/N]'')]"

definition gui_prelude :: "event list" where
  "gui_prelude = [Say (Preflight True 0), Say (Ask Confirm_start []), Set_running True]"

definition robocopy_call :: "event list" where
  "robocopy_call =
     [Mkdir [''backup''], Say Robocopy_start,
      Say (Command [''robocopy'', ''/models'', ''/backup'', ''/E'', ''/COPYALL'', ''/R:1'',
                    ''/W:1'']),
      Robocopy [''models''] [''backup'']]"

definition failed_robocopy_log :: "event list" where
  "failed_robocopy_log =
     robocopy_call @ [Say (Stdout []), Say (Copy_failed 8), Say (Stderr ''ERROR''),
                      Say Python_copy_start, Mkdir [''backup'']]"

definition at_copy :: "event list \<Rightarrow> world" where
  "at_copy prelude = models_world\<lparr>out := prelude\<rparr>"

definition copy_denied :: "event list \<Rightarrow> world" where
  "copy_denied prelude =
     \<lparr>files = [([''models''], Directory), ([''models'', ''a.bin''], File ''weights''),
               ([''backup''], Directory)],
      stdin = [], out = prelude @ robocopy_call\<rparr>"

definition locked_env :: env where
  "locked_env =
     plain_env\<lparr>rmtree_fault :=
       (\<lambda>p fs. if p = [''models''] then Some (PermissionError, fs) else None)\<rparr>"

definition python_copy_log :: "event list" where
  "python_copy_log =
     robocopy_call @ [Say Robocopy_not_found, Say Python_copy_start, Mkdir [''backup''],
                      Copy2 [''models'', ''a.bin''] [''backup'', ''a.bin'']]"

definition copied :: "event list \<Rightarrow> world" where
  "copied prelude =
     \<lparr>files = [([''models''], Directory), ([''models'', ''a.bin''], File ''weights''),
               ([''backup''], Directory), ([''backup'', ''a.bin''], File ''weights'')],
      stdin = [], out = prelude @ python_copy_log\<rparr>"

definition removal_refused :: "event list \<Rightarrow> world" where
  "removal_refused prelude =
     record_event (Rmtree [''models''])
       (record_event (Say (Deleting_source [''models''])) (copied prelude))"

definition inspected :: "path \<Rightarrow> event list" where
  "inspected target =
     [Say Banner, Say (Ask_source (Some [''/home/.lmstudio''])),
      Say (Info_header Source_info), Say (Info_path [''models'']), Say (Info_type True),
      Say (Info_counts 1 0), Say (Info_size ''7.00 B''), Say (Info_empty False),
      Say (Ask_target (Some [''D:/LMstudio_AIModels''])), Say (Info_header Target_info),
      Say (Info_path target)]"

definition menu_answered :: "path \<Rightarrow> string \<Rightarrow> question \<Rightarrow> event list" where
  "menu_answered target size_text q =
     inspected target
     @ [Say (Info_type True), Say (Info_counts 1 0), Say (Info_size size_text),
        Say (Info_empty False), Say Target_exists_menu, Say Ask_choice,
        Say (Ask q '' [y/N]'')]"

definition typed_same_overwrite :: world where
  "typed_same_overwrite = models_world\<lparr>stdin := [''models'', ''models'', ''2'', ''y'', ''y'']\<rparr>"

definition typed_same_link :: world where
  "typed_same_link = models_world\<lparr>stdin := [''models'', ''models'', ''3'', ''y'']\<rparr>"

definition two_trees :: fs where
  "two_trees =
     [([''models''], Directory), ([''models'', ''a.bin''], File ''weights''),
      ([''backup''], Directory), ([''backup'', ''b.bin''], File ''old'')]"

definition typed_link_only :: world where
  "typed_link_only =
     \<lparr>files = two_trees, stdin = [''models'', ''backup'', ''3'', ''y''], out = []\<rparr>"

definition link_only_chosen :: world where
  "link_only_chosen =
     \<lparr>files = two_trees, stdin = [],
      out = menu_answered [''backup''] ''3.00 B'' Confirm_link_only\<rparr>"

text \<open>
  The file systems left by one and by two copies of \<open>models\<close> into \<open>models/copy\<close>, the
  file-system part of a result, and the world after the Python copy of \<open>models\<close> into
  \<open>backup\<close>.
\<close>

definition nested_once :: fs where
  "nested_once =
     [([''models''], Directory), ([''models'', ''a.bin''], File ''weights''),
      ([''models'', ''copy''], Directory),
      ([''models'', ''copy'', ''a.bin''], File ''weights''),
      ([''models'', ''copy'', ''copy''], Directory),
      ([''models'', ''copy'', ''copy'', ''a.bin''], File ''weights'')]"

definition nested_twice :: fs where
  "nested_twice =
     nested_once
     @ [([''models'', ''copy'', ''copy'', ''copy''], Directory),
        ([''models'', ''copy'', ''copy'', ''copy'', ''a.bin''], File ''weights'')]"

definition files_of :: "((exn + unit) \<times> world) option \<Rightarrow> ((exn + unit) \<times> fs) option" where
  "files_of result = map_option (\<lambda>(r, w). (r, files w)) result"

definition python_copied :: world where
  "python_copied =
     \<lparr>files = [([''models''], Directory), ([''models'', ''a.bin''], File ''weights''),
               ([''backup''], Directory), ([''backup'', ''a.bin''], File ''weights'')],
      stdin = [],
      out = [Mkdir [''backup''], Copy2 [''models'', ''a.bin''] [''backup'', ''a.bin'']]\<rparr>"

section \<open>Properties of the byte formatter\<close>

lemma bit_length_le: "0 \<le> n \<Longrightarrow> n < 2 ^ k \<Longrightarrow> bit_length n \<le> k"
proof (induction n arbitrary: k rule: bit_length.induct)
  case (1 n)
  show ?case
  proof (cases "n \<le> 0")
    case True
    then show ?thesis by simp
  next
    case False
    then obtain j where k: "k = Suc j"
      using "1.prems" by (cases k) auto
    have "n div 2 < 2 ^ j" using "1.prems" k by auto
    moreover have "0 \<le> n div 2" using "1.prems" by simp
    ultimately have "bit_length (n div 2) \<le> j" using "1.IH" False by simp
    then show ?thesis using False k by (subst bit_length.simps) simp
  qed
qed

lemma py_float_exact: "\<bar>n\<bar> < 2 ^ 53 \<Longrightarrow> py_float n = Some (of_int n)"
  using bit_length_le [of "\<bar>n\<bar>" 53] by (simp add: py_float_def Let_def)

lemma scale_units_index:
  "k \<le> length us \<Longrightarrow> (k = 0 \<or> 1024 ^ k \<le> a) \<Longrightarrow> (k = length us \<or> a < 1024 ^ Suc k)
   \<Longrightarrow> scale_units us a = fmt2 (a / 1024 ^ k) @ '' '' @ (us @ [''PB'']) ! k"
proof (induction us arbitrary: a k)
  case Nil
  then show ?case by simp
next
  case (Cons u us)
  show ?case
  proof (cases k)
    case 0
    then show ?thesis using Cons.prems by simp
  next
    case (Suc j)
    have big: "1024 ^ Suc j \<le> a" using Cons.prems Suc by simp
    have "(1024::rat) \<le> 1024 ^ Suc j" by (simp add: self_le_power)
    then have ge: "\<not> a < 1024" using big by linarith
    have "scale_units us (a / 1024) = fmt2 (a / 1024 / 1024 ^ j) @ '' '' @ (us @ [''PB'']) ! j"
    proof (rule Cons.IH)
      show "j \<le> length us" using Cons.prems Suc by simp
      show "j = 0 \<or> 1024 ^ j \<le> a / 1024" using big by (simp add: le_divide_eq)
      show "j = length us \<or> a / 1024 < 1024 ^ Suc j"
        using Cons.prems Suc by (auto simp: divide_less_eq)
    qed
    then show ?thesis using ge Suc by simp
  qed
qed

text \<open>
  Claim C9. The byte formatter divides by 1024 until the amount is below 1024 and names
  the unit reached (B, KB, MB, GB, TB, and PB when the five divisions are used up),
  printing the amount with two decimals: \<open>0\<close> gives \<open>0.00 B\<close>, \<open>1536\<close> gives
  \<open>1.50 KB\<close>, \<open>1073741824\<close> gives \<open>1.00 GB\<close>; and for every byte count \<open>n\<close>
  that a float holds exactly (below \<open>2 ^ 53\<close>) lying between \<open>1024 ^ k\<close> and
  \<open>1024 ^ (k + 1)\<close>, the result is \<open>n / 1024 ^ k\<close> with two decimals followed by
  the \<open>k\<close>-th unit.
\<close>

theorem format_bytes_scaling:
  "format_bytes 0 = Inr ''0.00 B'' \<and> format_bytes 1536 = Inr ''1.50 KB''
   \<and> format_bytes 1073741824 = Inr ''1.00 GB''
   \<and> (\<forall>n k. 0 \<le> n \<and> n < 2 ^ 53 \<and> k \<le> 5 \<and> (k = 0 \<or> 1024 ^ k \<le> n) \<and> (k = 5 \<or> n < 1024 ^ Suc k)
        \<longrightarrow> format_bytes n
            = Inr (fmt2 (of_int n / 1024 ^ k) @ '' '' @ [''B'', ''KB'', ''MB'', ''GB'', ''TB'', ''PB''] ! k))"
proof (intro conjI allI impI)
  show "format_bytes 0 = Inr ''0.00 B''" by code_simp
  show "format_bytes 1536 = Inr ''1.50 KB''" by code_simp
  show "format_bytes 1073741824 = Inr ''1.00 GB''" by code_simp
next
  fix n :: int and k :: nat
  assume h: "0 \<le> n \<and> n < 2 ^ 53 \<and> k \<le> 5 \<and> (k = 0 \<or> 1024 ^ k \<le> n) \<and> (k = 5 \<or> n < 1024 ^ Suc k)"
  then have fl: "py_float n = Some (of_int n)" by (intro py_float_exact) simp
  have lo: "k = 0 \<or> (1024::rat) ^ k \<le> of_int n"
  proof (cases "k = 0")
    case False
    then have "(1024::int) ^ k \<le> n" using h by simp
    then have "(of_int ((1024::int) ^ k) :: rat) \<le> of_int n" by (simp only: of_int_le_iff)
    then show ?thesis by simp
  qed simp
  have hi: "k = length units \<or> (of_int n :: rat) < 1024 ^ Suc k"
  proof (cases "k = 5")
    case False
    then have "n < (1024::int) ^ Suc k" using h by simp
    then have "(of_int n :: rat) < of_int ((1024::int) ^ Suc k)" by (simp only: of_int_less_iff)
    then show ?thesis by simp
  qed (simp add: units_def)
  have "k \<le> length units" using h by (simp add: units_def)
  from scale_units_index [OF this lo hi] fl
  show "format_bytes n
        = Inr (fmt2 (of_int n / 1024 ^ k) @ '' '' @ [''B'', ''KB'', ''MB'', ''GB'', ''TB'', ''PB''] ! k)"
    by (simp add: format_bytes_def units_def)
qed

theorem format_bytes_scaling_witness:
  "(0::int) \<le> 1572864 \<and> (1572864::int) < 2 ^ 53 \<and> (1024::int) ^ 2 \<le> 1572864
   \<and> (1572864::int) < 1024 ^ 3 \<and> format_bytes 1572864 = Inr ''1.50 MB''"
proof -
  have "format_bytes 1572864
        = Inr (fmt2 (of_int 1572864 / 1024 ^ 2) @ '' '' @ [''B'', ''KB'', ''MB'', ''GB'', ''TB'', ''PB''] ! 2)"
    by (rule format_bytes_scaling [THEN conjunct2, THEN conjunct2, THEN conjunct2, rule_format])
       simp
  moreover have "fmt2 (of_int 1572864 / 1024 ^ 2) = ''1.50''" by code_simp
  ultimately show ?thesis by simp
qed

section \<open>Properties of the path inspector and the junction manager\<close>

lemma follow_file: "lstat fs p = Some (File c) \<Longrightarrow> follow n fs p = Some (p, File c)"
  by (cases n) simp_all

lemma follow_directory: "lstat fs p = Some Directory \<Longrightarrow> follow n fs p = Some (p, Directory)"
  by (cases n) simp_all

lemma follow_missing: "lstat fs p = None \<Longrightarrow> follow n fs p = None"
  by (cases n) simp_all

lemma entry_is_seen:
  "lstat fs p = Some e \<Longrightarrow> path_exists fs p \<or> path_is_symlink fs p"
  by (cases e) (simp_all add: path_exists_def path_is_symlink_def stat_def
                              follow_file follow_directory)

lemma is_dir_exists: "path_is_dir fs p \<Longrightarrow> path_exists fs p"
  by (auto simp: path_is_dir_def path_exists_def split: option.splits)

text \<open>
  Claim C3. Whatever entry is at the link path (a file, a directory, a link), the
  junction manager raises its precondition error at once: the world it leaves is the
  world it found, so nothing was printed, the file system is as it was and the
  \<open>mklink\<close> command was not started.
\<close>

theorem create_junction_occupied:
  assumes "lstat (files w) link_path = Some e"
  shows "create_junction env link_path target_path w
         = (Inl (RuntimeError_link_exists link_path), w)"
  using entry_is_seen [OF assms] by (auto simp: create_junction_def raise_def)

theorem create_junction_occupied_witness:
  "lstat (files occupied_world) [''home'', ''models''] = Some (File ''x'')
   \<and> create_junction plain_env [''home'', ''models''] [''d''] occupied_world
     = (Inl (RuntimeError_link_exists [''home'', ''models'']), occupied_world)"
proof -
  have h: "lstat (files occupied_world) [''home'', ''models''] = Some (File ''x'')"
    by (simp add: occupied_world_def lstat_def)
  from create_junction_occupied [OF h] h show ?thesis by simp
qed

text \<open>
  Claim C10. A link whose target is missing does not exist for the inspector
  (\<open>exists\<close> is false), and the junction manager refuses its path all the same,
  before the \<open>mklink\<close> command and without a change to the world.
\<close>

theorem create_junction_dangling_link:
  assumes "lstat (files w) link_path = Some (Symlink q)" and "\<not> path_exists (files w) link_path"
  shows "(\<exists>info. collect_dir_info link_path w = (Inr info, w) \<and> \<not> exists info)
         \<and> create_junction env link_path target_path w
           = (Inl (RuntimeError_link_exists link_path), w)"
proof
  show "\<exists>info. collect_dir_info link_path w = (Inr info, w) \<and> \<not> exists info"
    using assms(2) by (simp add: collect_dir_info_def Let_def)
  have "path_is_symlink (files w) link_path"
    using assms(1) by (simp add: path_is_symlink_def)
  then show "create_junction env link_path target_path w
             = (Inl (RuntimeError_link_exists link_path), w)"
    by (simp add: create_junction_def raise_def)
qed

theorem create_junction_dangling_link_witness:
  "lstat (files dangling_world) [''home'', ''models''] = Some (Symlink [''gone''])
   \<and> \<not> path_exists (files dangling_world) [''home'', ''models'']
   \<and> create_junction plain_env [''home'', ''models''] [''d''] dangling_world
     = (Inl (RuntimeError_link_exists [''home'', ''models'']), dangling_world)"
proof -
  have h1: "lstat (files dangling_world) [''home'', ''models''] = Some (Symlink [''gone''])"
    by (simp add: dangling_world_def lstat_def)
  have h2: "\<not> path_exists (files dangling_world) [''home'', ''models'']"
    by (simp add: dangling_world_def path_exists_def stat_def link_limit_def lstat_def
                  eval_nat_numeral)
  from create_junction_dangling_link [OF h1 h2] h1 h2 show ?thesis by simp
qed



section \<open>What the dialogue leaves unchanged, and where its paths come from\<close>

lemma say_files: "say m w = (r, w') \<Longrightarrow> files w' = files w"
  by (auto simp: say_def record_event_def)

lemma say_all_files: "say_all ms w = (r, w') \<Longrightarrow> files w' = files w"
proof (induction ms arbitrary: w)
  case Nil
  then show ?case by (simp add: return_def)
next
  case (Cons m ms)
  then show ?case by (auto simp: bnd_def say_def record_event_def)
qed

lemma input_files: "input m w = (r, w') \<Longrightarrow> files w' = files w"
  by (auto simp: input_def record_event_def split: list.splits)

lemma print_dir_info_files: "print_dir_info title p info w = (r, w') \<Longrightarrow> files w' = files w"
  by (auto simp: print_dir_info_def bnd_def say_def record_event_def raise_def
           split: if_splits sum.splits)

lemma collect_dir_info_exists:
  "collect_dir_info p w = (Inr info, w') \<Longrightarrow> w' = w \<and> exists info = path_exists (files w) p"
  by (auto simp: collect_dir_info_def Let_def split: if_splits)

lemma ask_yes_no_files: "ask_yes_no q dflt w = (r, w') \<Longrightarrow> files w' = files w"
proof (induction q dflt w rule: ask_yes_no.induct)
  case (1 prompt dflt w)
  let ?m = "Ask prompt (if dflt \<in> {None, Some ''y'', Some ''Y''} then '' [Y/n]'' else '' [y/N]'')"
  obtain x w1 where inp: "input ?m w = (x, w1)" by (cases "input ?m w")
  then have f1: "files w1 = files w" by (rule input_files)
  show ?case
  proof (cases x)
    case (Inl e)
    then show ?thesis using "1.prems" inp f1 by (subst (asm) ask_yes_no.simps) auto
  next
    case (Inr line)
    show ?thesis
    proof (cases "\<not> (lower (strip line) = [] \<and> dflt \<noteq> None) \<and> lower (strip line) \<notin> set yes_answers
                  \<and> lower (strip line) \<notin> set no_answers")
      case False
      then show ?thesis using "1.prems" inp Inr f1
        by (subst (asm) ask_yes_no.simps) (auto simp: Let_def split: if_splits)
    next
      case True
      obtain w2 where s: "say Enter_yes_or_no w1 = (Inr (), w2)" by (simp add: say_def)
      then have f2: "files w2 = files w1" by (rule say_files)
      have "ask_yes_no prompt dflt w2 = (r, w')"
        using "1.prems" inp Inr True s
        by (subst (asm) ask_yes_no.simps) (auto simp: Let_def split: if_splits)
      then have "files w' = files w2"
        using "1.IH" [OF inp [symmetric] Inr refl _ _ _ s [symmetric] refl] True by simp
      then show ?thesis using f1 f2 by simp
    qed
  qed
qed

lemma prompt_for_path_result:
  "prompt_for_path env prompt (Some d) w = (Inr p, w')
   \<Longrightarrow> files w' = files w \<and> (p = d \<or> resolved env p)"
proof (induction env prompt "Some d" w rule: prompt_for_path.induct)
  case (1 env prompt w)
  obtain x w1 where inp: "input (prompt (Some d)) w = (x, w1)"
    by (cases "input (prompt (Some d)) w")
  then have f1: "files w1 = files w" by (rule input_files)
  show ?case
  proof (cases x)
    case (Inl e)
    then show ?thesis using "1.prems" inp by (subst (asm) prompt_for_path.simps) auto
  next
    case (Inr line)
    let ?c = "resolve env (files w1) (expanduser env (strip line))"
    show ?thesis
    proof (cases "strip line \<noteq> [] \<and> path_str ?c = []")
      case False
      then show ?thesis using "1.prems" inp Inr f1
        by (subst (asm) prompt_for_path.simps)
           (auto simp: Let_def resolved_def split: if_splits)
    next
      case True
      obtain w2 where s: "say Path_invalid w1 = (Inr (), w2)" by (simp add: say_def)
      then have f2: "files w2 = files w1" by (rule say_files)
      have "prompt_for_path env prompt (Some d) w2 = (Inr p, w')"
        using "1.prems" inp Inr True s
        by (subst (asm) prompt_for_path.simps) (auto simp: Let_def split: if_splits)
      then have "files w' = files w2 \<and> (p = d \<or> resolved env p)"
        using "1.hyps" [OF inp [symmetric] Inr refl _ refl _ s [symmetric] refl] True by simp
      then show ?thesis using f1 f2 by simp
    qed
  qed
qed

lemma collect_dir_info_returns: "\<exists>info. collect_dir_info p w = (Inr info, w)"
  by (simp add: collect_dir_info_def Let_def)

lemma choose_target_result:
  "choose_target env d w = (Inr pol, w')
   \<Longrightarrow> files w' = files w
       \<and> (\<forall>t. target_of pol = Some t \<longrightarrow> t = d \<or> resolved env t)
       \<and> (\<forall>t. pol = Overwrite_existing t \<or> pol = Link_only_to_existing t
              \<longrightarrow> path_exists (files w) t)"
proof (induction env d w rule: choose_target.induct)
  case (1 env d w)
  note run = "1.prems"
  obtain x1 w1 where p0: "prompt_for_path env Ask_target (Some d) w = (x1, w1)"
    by (cases "prompt_for_path env Ask_target (Some d) w")
  show ?case
  proof (cases x1)
    case (Inl e)
    then show ?thesis using run p0 by (subst (asm) choose_target.simps) simp
  next
    case (Inr t)
    then have p: "prompt_for_path env Ask_target (Some d) w = (Inr t, w1)" using p0 by simp
    from prompt_for_path_result [OF p]
    have f1: "files w1 = files w" and rt: "t = d \<or> resolved env t" by simp_all
    obtain info where c: "collect_dir_info t w1 = (Inr info, w1)"
      using collect_dir_info_returns by blast
    then have ei: "exists info = path_exists (files w1) t"
      using collect_dir_info_exists by blast
    obtain x3 w3 where pr0: "print_dir_info Target_info t info w1 = (x3, w3)"
      by (cases "print_dir_info Target_info t info w1")
    then have f3: "files w3 = files w1" by (rule print_dir_info_files)
    show ?thesis
    proof (cases x3)
      case (Inl e)
      then show ?thesis using run p c pr0 by (subst (asm) choose_target.simps) simp
    next
      case (Inr u3)
      then have pr: "print_dir_info Target_info t info w1 = (Inr u3, w3)" using pr0 by simp
      show ?thesis
      proof (cases "exists info")
        case False
        then have "pol = Proceed_fresh t" "w' = w3"
          using run p c pr by (subst (asm) choose_target.simps, simp)+
        then show ?thesis using f1 f3 rt by simp
      next
        case True
        obtain w4 where s: "say Target_exists_menu w3 = (Inr (), w4)" by (simp add: say_def)
        then have f4: "files w4 = files w3" by (rule say_files)
        obtain x5 w5 where i0: "input Ask_choice w4 = (x5, w5)"
          by (cases "input Ask_choice w4")
        then have f5: "files w5 = files w4" by (rule input_files)
        have fw5: "files w5 = files w" using f1 f3 f4 f5 by simp
        have ex: "path_exists (files w) t" using True ei f1 by simp
        show ?thesis
        proof (cases x5)
          case (Inl e)
          then show ?thesis using run p c pr True s i0
            by (subst (asm) choose_target.simps) simp
        next
          case (Inr line)
          then have i: "input Ask_choice w4 = (Inr line, w5)" using i0 by simp
          note upto = "1.IH"(1) [OF p [symmetric] refl c [symmetric] refl pr [symmetric] refl True
                                 s [symmetric] refl i [symmetric] refl refl]
          consider (one) "strip line = ''1''"
            | (two) "strip line \<noteq> ''1''" "strip line = ''2''"
            | (three) "strip line \<noteq> ''1''" "strip line \<noteq> ''2''" "strip line = ''3''"
            | (four) "strip line \<noteq> ''1''" "strip line \<noteq> ''2''" "strip line \<noteq> ''3''"
                     "strip line = ''4''"
            | (other) "strip line \<noteq> ''1''" "strip line \<noteq> ''2''" "strip line \<noteq> ''3''"
                      "strip line \<noteq> ''4''"
            by blast
          then show ?thesis
          proof cases
            case one
            have "choose_target env d w5 = (Inr pol, w')"
              using run p c pr True s i one
              by (subst (asm) choose_target.simps) (simp add: Let_def)
            from upto [OF one this] show ?thesis using fw5 by simp
          next
            case two
            obtain x6 w6 where a0: "ask_yes_no Confirm_overwrite (Some ''n'') w5 = (x6, w6)"
              by (cases "ask_yes_no Confirm_overwrite (Some ''n'') w5")
            then have f6: "files w6 = files w5" by (rule ask_yes_no_files)
            show ?thesis
            proof (cases x6)
              case (Inl e)
              then show ?thesis using run p c pr True s i two a0
                by (subst (asm) choose_target.simps) (simp add: Let_def)
            next
              case (Inr confirmed)
              then have a: "ask_yes_no Confirm_overwrite (Some ''n'') w5 = (Inr confirmed, w6)"
                using a0 by simp
              show ?thesis
              proof (cases confirmed)
                case True
                then have "pol = Overwrite_existing t" "w' = w6"
                  using run p c pr \<open>exists info\<close> s i two a
                  by (subst (asm) choose_target.simps, simp add: Let_def)+
                then show ?thesis using f6 fw5 rt ex by simp
              next
                case False
                have "choose_target env d w6 = (Inr pol, w')"
                  using run p c pr \<open>exists info\<close> s i two a False
                  by (subst (asm) choose_target.simps) (simp add: Let_def)
                from "1.IH"(2) [OF p [symmetric] refl c [symmetric] refl pr [symmetric] refl
                                   \<open>exists info\<close> s [symmetric] refl i [symmetric] refl refl
                                   two a [symmetric] refl False this]
                show ?thesis using f6 fw5 by simp
              qed
            qed
          next
            case three
            obtain x6 w6 where a0: "ask_yes_no Confirm_link_only (Some ''n'') w5 = (x6, w6)"
              by (cases "ask_yes_no Confirm_link_only (Some ''n'') w5")
            then have f6: "files w6 = files w5" by (rule ask_yes_no_files)
            show ?thesis
            proof (cases x6)
              case (Inl e)
              then show ?thesis using run p c pr True s i three a0
                by (subst (asm) choose_target.simps) (simp add: Let_def)
            next
              case (Inr confirmed)
              then have a: "ask_yes_no Confirm_link_only (Some ''n'') w5 = (Inr confirmed, w6)"
                using a0 by simp
              show ?thesis
              proof (cases confirmed)
                case True
                then have "pol = Link_only_to_existing t" "w' = w6"
                  using run p c pr \<open>exists info\<close> s i three a
                  by (subst (asm) choose_target.simps, simp add: Let_def)+
                then show ?thesis using f6 fw5 rt ex by simp
              next
                case False
                have "choose_target env d w6 = (Inr pol, w')"
                  using run p c pr \<open>exists info\<close> s i three a False
                  by (subst (asm) choose_target.simps) (simp add: Let_def)
                from "1.IH"(3) [OF p [symmetric] refl c [symmetric] refl pr [symmetric] refl
                                   \<open>exists info\<close> s [symmetric] refl i [symmetric] refl refl
                                   three a [symmetric] refl False this]
                show ?thesis using f6 fw5 by simp
              qed
            qed
          next
            case four
            have "pol = Abort" "files w' = files w5"
              using run p c pr True s i four
              by (subst (asm) choose_target.simps,
                  auto simp: Let_def bnd_def say_def return_def record_event_def)+
            then show ?thesis using fw5 by simp
          next
            case other
            obtain w6 where v: "say Invalid_choice w5 = (Inr (), w6)" by (simp add: say_def)
            then have f6: "files w6 = files w5" by (rule say_files)
            have "choose_target env d w6 = (Inr pol, w')"
              using run p c pr True s i other v
              by (subst (asm) choose_target.simps) (simp add: Let_def)
            from "1.IH"(4) [OF p [symmetric] refl c [symmetric] refl pr [symmetric] refl True
                               s [symmetric] refl i [symmetric] refl refl other
                               v [symmetric] refl this]
            show ?thesis using f6 fw5 by simp
          qed
        qed
      qed
    qed
  qed
qed


lemma bnd_Inr:
  assumes "bnd m f w = (Inr y, w')"
  obtains x w1 where "m w = (Inr x, w1)" and "f x w1 = (Inr y, w')"
  using assms by (auto simp: bnd_def split: prod.splits sum.splits)

lemma resolved_resolve: "resolved env (resolve env fs typed)"
  by (auto simp: resolved_def)

lemma cli_decide_chain:
  assumes "cli_decide env w0 = (Inr (Some (source_dir, pol)), w)"
  obtains wa wb wd where
    "prompt_for_path env Ask_source
       (Some (resolve env (files wa) (home env @ ''/.lmstudio''))) wa = (Inr source_dir, wb)"
    "choose_target env (resolve env (files wa) ''D:/LMstudio_AIModels'') wd = (Inr pol, w)"
  using assms unfolding cli_decide_def Let_def
  by (auto elim!: bnd_Inr simp: return_def split: if_splits option.splits)

lemma cli_decide_result:
  assumes "cli_decide env w0 = (Inr (Some (source_dir, pol)), w)"
  shows "resolved env source_dir
       \<and> (\<forall>t. target_of pol = Some t \<longrightarrow> resolved env t)
       \<and> (\<forall>t. pol = Overwrite_existing t \<or> pol = Link_only_to_existing t
              \<longrightarrow> path_exists (files w) t)"
proof -
  from assms obtain wa wb wd where
    p: "prompt_for_path env Ask_source
          (Some (resolve env (files wa) (home env @ ''/.lmstudio''))) wa = (Inr source_dir, wb)"
    and ch: "choose_target env (resolve env (files wa) ''D:/LMstudio_AIModels'') wd = (Inr pol, w)"
    by (rule cli_decide_chain)
  from prompt_for_path_result [OF p] have rs: "resolved env source_dir"
    using resolved_resolve by auto
  from choose_target_result [OF ch]
  have "\<forall>t. target_of pol = Some t \<longrightarrow> resolved env t"
    and "\<forall>t. pol = Overwrite_existing t \<or> pol = Link_only_to_existing t
              \<longrightarrow> path_exists (files w) t"
    using resolved_resolve by auto
  then show ?thesis using rs by blast
qed

lemma gui_prepare_result:
  assumes "gui_prepare env f ans w0 = (Inr (Some (source, target)), w)"
  shows "source = resolve env (files w0) (expanduser env (source_var f))
       \<and> target = resolve env (files w0) (expanduser env (target_var f))"
proof -
  have "\<And>x w1. ensure_windows env w0 = (Inr x, w1) \<Longrightarrow> w1 = w0"
    by (auto simp: ensure_windows_def raise_def return_def split: if_splits)
  then show ?thesis
    using assms unfolding gui_prepare_def Let_def
    by (auto elim!: bnd_Inr simp: return_def split: if_splits option.splits)
qed

section \<open>Properties of the copy, delete and link phases\<close>

text \<open>
  Claim C1 says that a \<open>robocopy\<close> exit code above 7 is a hard failure and that the Python
  copy is kept for a missing \<open>robocopy\<close>. The code does otherwise: \<open>run_robocopy\<close>
  returns \<open>False\<close> for a failed run as it does for a missing program, and
  \<open>copy_directory\<close> then copies with Python. Here \<open>robocopy\<close> runs, copies nothing and
  exits with 8: the Python copy follows the failure message, the copy phase returns, and
  the run goes on to remove the source and to make the junction.
\<close>

theorem robocopy_exit_8_runs_python_copy:
  "cli_execute exit8_env [''models''] [''backup''] models_world
   = Some (Inr (),
       \<lparr>files = [([''backup''], Directory), ([''backup'', ''a.bin''], File ''weights''),
                 ([''models''], Symlink [''backup''])],
        stdin = [],
        out = [Mkdir [''backup''], Say Robocopy_start,
               Say (Command [''robocopy'', ''/models'', ''/backup'', ''/E'', ''/COPYALL'',
                             ''/R:1'', ''/W:1'']),
               Robocopy [''models''] [''backup''], Say (Stdout []), Say (Copy_failed 8),
               Say (Stderr ''ERROR''), Say Python_copy_start, Mkdir [''backup''],
               Copy2 [''models'', ''a.bin''] [''backup'', ''a.bin''],
               Say (Deleting_source [''models'']), Rmtree [''models''],
               Say (Creating_junction [''models''] [''backup'']),
               Mklink [''models''] [''backup''], Say Junction_created, Say Verified,
               Say All_done]\<rparr>)"
  by code_simp

lemma run_cli_at_copy:
  "cli_copy_start env w0 = Some (source, target, w)
   \<Longrightarrow> run_cli env w0 = cli_execute env source target w"
  by (auto simp: cli_copy_start_def run_cli_def cli_confirm_def
           split: prod.splits sum.splits option.splits policy.splits bool.splits if_splits)

lemma gui_start_at_copy:
  "gui_copy_start env f ans w0 = Some (source, target, w)
   \<Longrightarrow> gui_start env f ans w0
       = (case copy_directory env source target w of
            None \<Rightarrow> None
          | Some (Inl e, w2) \<Rightarrow> Some (Inl e, record_event (Set_running False) w2)
          | Some (Inr u, w2) \<Rightarrow>
              (case bnd (delete_directory env source) (\<lambda>_.
                    bnd (create_junction env source target) (\<lambda>_. say All_done)) w2 of
                 (r, w3) \<Rightarrow> Some (r, record_event (Set_running False) w3)))"
  by (auto simp: gui_copy_start_def gui_start_def gui_worker_def
           split: prod.splits sum.splits option.splits if_splits)

text \<open>
  A copy that raises stops the run. A command-line run that has reached the copy then
  prints the error and returns, and a graphical run ends its worker with the exception:
  in both, the world left is the world of the raise with one line (or the end-of-run
  signal) added, so the file system is as the copy left it and neither \<open>rmtree\<close> nor
  \<open>mklink\<close> was called after it. (An exception that is not an \<open>Exception\<close>, such as an
  interrupt, passes through the command-line run as well.)
\<close>

lemma raised_copy_stops_run:
  assumes "copy_directory env source target w = Some (Inl e, w')"
  shows "(cli_copy_start env w0 = Some (source, target, w) \<longrightarrow>
            run_cli env w0
            = Some (if is_Exception e then (Inr (), record_event (Say (Copy_error e)) w')
                    else (Inl e, w')))
       \<and> (gui_copy_start env f ans w0 = Some (source, target, w) \<longrightarrow>
            gui_start env f ans w0 = Some (Inl e, record_event (Set_running False) w'))"
proof (intro conjI impI)
  assume "cli_copy_start env w0 = Some (source, target, w)"
  then have "run_cli env w0 = cli_execute env source target w" by (rule run_cli_at_copy)
  then show "run_cli env w0
             = Some (if is_Exception e then (Inr (), record_event (Say (Copy_error e)) w')
                     else (Inl e, w'))"
    using assms by (simp add: cli_execute_def say_def)
next
  assume "gui_copy_start env f ans w0 = Some (source, target, w)"
  from gui_start_at_copy [OF this] assms
  show "gui_start env f ans w0 = Some (Inl e, record_event (Set_running False) w')"
    by simp
qed

lemma raised_copy_stops_run_example:
  "copy_directory denied_env [''models''] [''backup''] (at_copy cli_prelude)
     = Some (Inl PermissionError, copy_denied cli_prelude)
   \<and> cli_copy_start denied_env typed_fresh
     = Some ([''models''], [''backup''], at_copy cli_prelude)
   \<and> run_cli denied_env typed_fresh
     = Some (Inr (), record_event (Say (Copy_error PermissionError)) (copy_denied cli_prelude))
   \<and> copy_directory denied_env [''models''] [''backup''] (at_copy gui_prelude)
     = Some (Inl PermissionError, copy_denied gui_prelude)
   \<and> gui_copy_start denied_env filled_form all_yes models_world
     = Some ([''models''], [''backup''], at_copy gui_prelude)
   \<and> gui_start denied_env filled_form all_yes models_world
     = Some (Inl PermissionError, record_event (Set_running False) (copy_denied gui_prelude))"
proof -
  have c: "copy_directory denied_env [''models''] [''backup''] (at_copy cli_prelude)
           = Some (Inl PermissionError, copy_denied cli_prelude)"
    by code_simp
  have s: "cli_copy_start denied_env typed_fresh
           = Some ([''models''], [''backup''], at_copy cli_prelude)"
    by code_simp
  have g: "copy_directory denied_env [''models''] [''backup''] (at_copy gui_prelude)
           = Some (Inl PermissionError, copy_denied gui_prelude)"
    by code_simp
  have t: "gui_copy_start denied_env filled_form all_yes models_world
           = Some ([''models''], [''backup''], at_copy gui_prelude)"
    by code_simp
  have "run_cli denied_env typed_fresh
        = Some (Inr (), record_event (Say (Copy_error PermissionError)) (copy_denied cli_prelude))"
    using raised_copy_stops_run [OF c, of typed_fresh] s by (simp add: is_Exception_def)
  moreover have "gui_start denied_env filled_form all_yes models_world
        = Some (Inl PermissionError, record_event (Set_running False) (copy_denied gui_prelude))"
    using raised_copy_stops_run [OF g, of models_world filled_form all_yes] t by simp
  ultimately show ?thesis using c s g t by simp
qed

text \<open>
  Claim C4 says that a run whose copy phase fails stops with the source intact and that
  neither the removal of the source nor the junction is attempted. The code does so when
  the copy raises, and does otherwise for the failure the scenario names, a \<open>robocopy\<close>
  run that ends with a code above 7: \<open>run_robocopy\<close> prints the failure and returns
  \<open>False\<close>, \<open>copy_directory\<close> goes on with the Python copy and returns, and the run
  continues. Here \<open>robocopy\<close> writes the first three bytes of \<open>a.bin\<close> and exits with 8.
  The Python copy finds \<open>a.bin\<close> in the target and leaves it; the copy phase returns
  normally with the source still whole; then both the command-line run and the graphical
  run remove the source and make the junction, and the only \<open>a.bin\<close> left is the
  truncated one.
\<close>

theorem failed_robocopy_run_removes_source:
  "lstat (files typed_fresh) [''models'', ''a.bin''] = Some (File ''weights'')
   \<and> cli_copy_start partial_env typed_fresh
     = Some ([''models''], [''backup''], at_copy cli_prelude)
   \<and> copy_directory partial_env [''models''] [''backup''] (at_copy cli_prelude)
     = Some (Inr (),
         \<lparr>files = [([''models''], Directory), ([''models'', ''a.bin''], File ''weights''),
                   ([''backup''], Directory), ([''backup'', ''a.bin''], File ''wei'')],
          stdin = [], out = cli_prelude @ failed_robocopy_log\<rparr>)
   \<and> run_cli partial_env typed_fresh
     = Some (Inr (),
         \<lparr>files = [([''backup''], Directory), ([''backup'', ''a.bin''], File ''wei''),
                   ([''models''], Symlink [''backup''])],
          stdin = [],
          out = cli_prelude @ failed_robocopy_log
                @ [Say (Deleting_source [''models'']), Rmtree [''models''],
                   Say (Creating_junction [''models''] [''backup'']),
                   Mklink [''models''] [''backup''], Say Junction_created, Say Verified,
                   Say All_done]\<rparr>)
   \<and> gui_start partial_env filled_form all_yes models_world
     = Some (Inr (),
         \<lparr>files = [([''backup''], Directory), ([''backup'', ''a.bin''], File ''wei''),
                   ([''models''], Symlink [''backup''])],
          stdin = [],
          out = gui_prelude @ failed_robocopy_log
                @ [Say (Deleting_source [''models'']), Rmtree [''models''],
                   Say (Creating_junction [''models''] [''backup'']),
                   Mklink [''models''] [''backup''], Say Junction_created, Say All_done,
                   Set_running False]\<rparr>)"
  by code_simp

lemma delete_directory_out:
  "delete_directory env p w = (r, w')
   \<Longrightarrow> out w' = out w @ (if path_exists (files w) p then [Say (Deleting_source p), Rmtree p] else [])"
  by (auto simp: delete_directory_def return_def bnd_def say_def rmtree_def fs_op_def
                 record_event_def
           split: if_splits option.splits sum.splits prod.splits)

lemma delete_directory_raises:
  "delete_directory env p w = (Inl e, w') \<Longrightarrow> path_exists (files w) p"
  by (auto simp: delete_directory_def return_def split: if_splits)

text \<open>
  Claim C5. When removing the source raises, the junction is not attempted. The log of
  the failed removal ends with the \<open>rmtree\<close> call. A command-line run that has copied
  prints the error and the advice after it and returns; the link-only branch of the menu
  and the worker of the graphical run (after a copy, or in its link-only branch) end with
  the exception. In each the world left is the world of the failed removal with nothing
  but printed lines (or the end-of-run signal) added: \<open>mklink\<close> is not started.
\<close>

theorem delete_failure_skips_junction:
  assumes "delete_directory env source w = (Inl e, w')"
  shows "out w' = out w @ [Say (Deleting_source source), Rmtree source]
       \<and> (cli_copy_start env w0 = Some (source, target, w1)
            \<and> copy_directory env source target w1 = Some (Inr (), w) \<longrightarrow>
          run_cli env w0
          = Some (if is_Exception e
                  then (Inr (), w'\<lparr>out := out w' @ [Say (Delete_error e), Say No_junction_hint]\<rparr>)
                  else (Inl e, w')))
       \<and> (cli_decide env w0 = (Inr (Some (source, Link_only_to_existing target)), w) \<longrightarrow>
          run_cli env w0 = Some (Inl e, w'))
       \<and> (gui_copy_start env f ans w0 = Some (source, target, w1)
            \<and> copy_directory env source target w1 = Some (Inr (), w) \<longrightarrow>
          gui_start env f ans w0 = Some (Inl e, record_event (Set_running False) w'))
       \<and> (gui_prepare env f ans w0 = (Inr (Some (source, target)), w1) \<and> link_only_var f
            \<and> w = record_event (Set_running True) w1 \<longrightarrow>
          gui_start env f ans w0 = Some (Inl e, record_event (Set_running False) w'))"
proof (intro conjI impI)
  have ex: "path_exists (files w) source" using assms by (rule delete_directory_raises)
  show "out w' = out w @ [Say (Deleting_source source), Rmtree source]"
    using delete_directory_out [OF assms] ex by simp
  have lo: "link_only_steps env source target w = (Inl e, w')"
    using assms ex by (simp add: link_only_steps_def bnd_def)
  {
    assume "cli_copy_start env w0 = Some (source, target, w1)
            \<and> copy_directory env source target w1 = Some (Inr (), w)"
    then have "run_cli env w0 = Some (cli_after_copy env source target w)"
      using run_cli_at_copy [of env w0 source target w1] by (simp add: cli_execute_def)
    then show "run_cli env w0
          = Some (if is_Exception e
                  then (Inr (), w'\<lparr>out := out w' @ [Say (Delete_error e), Say No_junction_hint]\<rparr>)
                  else (Inl e, w'))"
      using assms
      by (simp add: cli_after_copy_def bnd_def say_def return_def record_event_def)
  }
  {
    assume "cli_decide env w0 = (Inr (Some (source, Link_only_to_existing target)), w)"
    then show "run_cli env w0 = Some (Inl e, w')" using lo by (simp add: run_cli_def)
  }
  {
    assume "gui_copy_start env f ans w0 = Some (source, target, w1)
            \<and> copy_directory env source target w1 = Some (Inr (), w)"
    then show "gui_start env f ans w0 = Some (Inl e, record_event (Set_running False) w')"
      using gui_start_at_copy [of env f ans w0 source target w1] assms
      by (simp add: bnd_def)
  }
  {
    assume "gui_prepare env f ans w0 = (Inr (Some (source, target)), w1) \<and> link_only_var f
            \<and> w = record_event (Set_running True) w1"
    then show "gui_start env f ans w0 = Some (Inl e, record_event (Set_running False) w')"
      using lo by (simp add: gui_start_def gui_worker_def)
  }
qed

theorem delete_failure_skips_junction_witness:
  "delete_directory locked_env [''models''] (copied cli_prelude)
     = (Inl PermissionError, removal_refused cli_prelude)
   \<and> cli_copy_start locked_env typed_fresh = Some ([''models''], [''backup''], at_copy cli_prelude)
   \<and> copy_directory locked_env [''models''] [''backup''] (at_copy cli_prelude)
     = Some (Inr (), copied cli_prelude)
   \<and> run_cli locked_env typed_fresh
     = Some (Inr (), (removal_refused cli_prelude)
               \<lparr>out := out (removal_refused cli_prelude)
                          @ [Say (Delete_error PermissionError), Say No_junction_hint]\<rparr>)
   \<and> (\<forall>l t. Mklink l t \<notin> set (out (removal_refused cli_prelude)))"
proof -
  have d: "delete_directory locked_env [''models''] (copied cli_prelude)
           = (Inl PermissionError, removal_refused cli_prelude)"
    by code_simp
  have s: "cli_copy_start locked_env typed_fresh
           = Some ([''models''], [''backup''], at_copy cli_prelude)"
    by code_simp
  have c: "copy_directory locked_env [''models''] [''backup''] (at_copy cli_prelude)
           = Some (Inr (), copied cli_prelude)"
    by code_simp
  have "run_cli locked_env typed_fresh
     = Some (Inr (), (removal_refused cli_prelude)
               \<lparr>out := out (removal_refused cli_prelude)
                          @ [Say (Delete_error PermissionError), Say No_junction_hint]\<rparr>)"
    using delete_failure_skips_junction [OF d, of typed_fresh "[''backup'']" "at_copy cli_prelude"] s c
    by (simp add: is_Exception_def)
  moreover have "\<forall>l t. Mklink l t \<notin> set (out (removal_refused cli_prelude))"
    by (simp add: removal_refused_def record_event_def copied_def cli_prelude_def
                  python_copy_log_def robocopy_call_def)
  ultimately show ?thesis using d s c by simp
qed

section \<open>Which paths a run works on\<close>

text \<open>
  Claim C2 says that the source and the target are distinct when the first changing
  operation runs. The program never compares them. Here the user types the source path
  again as the target and chooses to overwrite: the target (so the source) has been
  removed by \<open>rmtree\<close>, the file system is empty, and the run is at the copy with the
  same path as source and as target.
\<close>

theorem same_path_reaches_copy:
  "cli_copy_start plain_env typed_same_overwrite
   = Some ([''models''], [''models''],
       \<lparr>files = [], stdin = [],
        out = menu_answered [''models''] ''7.00 B'' Confirm_overwrite
              @ [Say (Deleting_target [''models'']), Rmtree [''models''],
                 Say (Preflight True 0), Say (Ask Confirm_start '' [y/N]'')]\<rparr>)"
  by code_simp

text \<open>
  Claim C2, amended. The source and the target that a run works on (the overwrite
  removal, the copy, the removal of the source and the junction all take them from the
  decision of the command-line run or from the preparation of the graphical run) are
  results of \<open>Path.resolve()\<close>; the program does not check that they differ.
\<close>

theorem run_paths_resolved:
  "(cli_decide env w0 = (Inr (Some (source, pol)), w)
      \<longrightarrow> resolved env source \<and> (\<forall>t. target_of pol = Some t \<longrightarrow> resolved env t))
   \<and> (cli_copy_start env w0 = Some (source, target, w)
      \<longrightarrow> resolved env source \<and> resolved env target)
   \<and> (gui_prepare env f ans w0 = (Inr (Some (source, target)), w)
      \<longrightarrow> resolved env source \<and> resolved env target)"
proof (intro conjI impI)
  assume "cli_decide env w0 = (Inr (Some (source, pol)), w)"
  from cli_decide_result [OF this]
  show "resolved env source" and "\<forall>t. target_of pol = Some t \<longrightarrow> resolved env t"
    by simp_all
next
  assume a: "cli_copy_start env w0 = Some (source, target, w)"
  then obtain pol w1 where d: "cli_decide env w0 = (Inr (Some (source, pol)), w1)"
    and t: "target_of pol = Some target"
    by (auto simp: cli_copy_start_def
             split: prod.splits sum.splits option.splits policy.splits bool.splits)
  from cli_decide_result [OF d] t
  show "resolved env source" and "resolved env target" by simp_all
next
  assume "gui_prepare env f ans w0 = (Inr (Some (source, target)), w)"
  from gui_prepare_result [OF this]
  show "resolved env source" and "resolved env target"
    by (simp_all add: resolved_resolve)
qed

theorem run_paths_resolved_witness:
  "cli_copy_start plain_env typed_fresh = Some ([''models''], [''backup''], at_copy cli_prelude)
   \<and> resolved plain_env [''models''] \<and> resolved plain_env [''backup'']"
proof -
  have s: "cli_copy_start plain_env typed_fresh
           = Some ([''models''], [''backup''], at_copy cli_prelude)"
    by code_simp
  from run_paths_resolved [where env = plain_env and ?w0.0 = typed_fresh
                              and source = "[''models'']" and target = "[''backup'']"
                              and w = "at_copy cli_prelude", THEN conjunct2, THEN conjunct1] s
  show ?thesis by simp
qed

section \<open>The link-only run\<close>

lemma map_of_filter_key:
  "map_of (filter (\<lambda>(k, v). P k) xs) q = (if P q then map_of xs q else None)"
  by (induction xs) auto

lemma lstat_without_outside: "\<not> prefix p q \<Longrightarrow> lstat (without_tree p fs) q = lstat fs q"
  by (simp add: lstat_def without_tree_def map_of_filter_key)

lemma lstat_without_inside: "prefix p q \<Longrightarrow> q \<noteq> [] \<Longrightarrow> lstat (without_tree p fs) q = None"
  by (simp add: lstat_def without_tree_def map_of_filter_key)

lemma missing_not_seen:
  "lstat fs p = None \<Longrightarrow> \<not> path_exists fs p \<and> \<not> path_is_symlink fs p"
  by (simp add: path_exists_def path_is_symlink_def stat_def follow_missing)

lemma directory_exists: "lstat fs p = Some Directory \<Longrightarrow> path_exists fs p"
  by (simp add: path_exists_def stat_def follow_directory)

lemma create_junction_out:
  "create_junction env l t w = (r, w')
   \<Longrightarrow> \<exists>es. out w' = out w @ es
            \<and> set es \<subseteq> {Say (Creating_junction l t), Mklink l t, Say Junction_created}"
  by (auto simp: create_junction_def raise_def bnd_def say_def run_program_def record_event_def
           split: if_splits prod.splits sum.splits)

lemma link_only_steps_out:
  assumes "link_only_steps env s t w = (r, w')"
  shows "\<exists>es. out w' = out w @ es
            \<and> set es \<subseteq> {Say (Deleting_source s), Rmtree s, Say (Creating_junction s t),
                         Mklink s t, Say Junction_created, Say Done_link_only}"
proof -
  obtain r1 w1 where d: "(if path_exists (files w) s then delete_directory env s w
                          else return () w) = (r1, w1)"
    by (cases "if path_exists (files w) s then delete_directory env s w else return () w")
  have o1: "\<exists>es. out w1 = out w @ es \<and> set es \<subseteq> {Say (Deleting_source s), Rmtree s}"
    using d delete_directory_out [of env s w r1 w1]
    by (auto simp: return_def split: if_splits)
  show ?thesis
  proof (cases r1)
    case (Inl e)
    then have "w' = w1" using assms d by (simp add: link_only_steps_def bnd_def)
    then show ?thesis using o1 by auto
  next
    case (Inr u)
    obtain r2 w2 where c: "create_junction env s t w1 = (r2, w2)"
      by (cases "create_junction env s t w1")
    from create_junction_out [OF c] obtain es2 where
      o2: "out w2 = out w1 @ es2"
          "set es2 \<subseteq> {Say (Creating_junction s t), Mklink s t, Say Junction_created}"
      by blast
    from o1 obtain es1 where o1': "out w1 = out w @ es1"
      "set es1 \<subseteq> {Say (Deleting_source s), Rmtree s}" by blast
    show ?thesis
    proof (cases r2)
      case (Inl e)
      then have "w' = w2" using assms d c Inr by (simp add: link_only_steps_def bnd_def)
      then have "out w' = out w @ (es1 @ es2)" using o1' o2 by simp
      moreover have "set (es1 @ es2) \<subseteq> {Say (Deleting_source s), Rmtree s,
          Say (Creating_junction s t), Mklink s t, Say Junction_created, Say Done_link_only}"
        using o1' o2 by auto
      ultimately show ?thesis by blast
    next
      case (Inr u2)
      then have "out w' = out w2 @ [Say Done_link_only]"
        using assms d c \<open>r1 = Inr u\<close>
        by (auto simp: link_only_steps_def bnd_def say_def record_event_def)
      then have "out w' = out w @ (es1 @ es2 @ [Say Done_link_only])" using o1' o2 by simp
      moreover have "set (es1 @ es2 @ [Say Done_link_only]) \<subseteq> {Say (Deleting_source s),
          Rmtree s, Say (Creating_junction s t), Mklink s t, Say Junction_created,
          Say Done_link_only}"
        using o1' o2 by auto
      ultimately show ?thesis by blast
    qed
  qed
qed

lemma link_only_steps_done:
  assumes dir: "lstat (files w) s = Some Directory"
    and nf: "rmtree_fault env s (files w) = None"
    and ne: "s \<noteq> []"
    and mk: "mklink env s t (without_tree s (files w)) = (Inr c, fs2)"
    and rc: "returncode c = 0"
  shows "link_only_steps env s t w
         = (Inr (), w\<lparr>files := fs2,
                      out := out w @ [Say (Deleting_source s), Rmtree s,
                                      Say (Creating_junction s t), Mklink s t,
                                      Say Junction_created, Say Done_link_only]\<rparr>)"
proof -
  let ?w1 = "w\<lparr>files := without_tree s (files w),
               out := out w @ [Say (Deleting_source s), Rmtree s]\<rparr>"
  have ex: "path_exists (files w) s" using dir by (rule directory_exists)
  have del: "delete_directory env s w = (Inr (), ?w1)"
    using ex dir nf
    by (simp add: delete_directory_def bnd_def say_def rmtree_def fs_op_def rmtree_fs_def
                  record_event_def)
  have gone: "lstat (files ?w1) s = None" using ne by (simp add: lstat_without_inside)
  from missing_not_seen [OF gone]
  have "create_junction env s t ?w1
        = (Inr (), ?w1\<lparr>files := fs2,
                        out := out ?w1 @ [Say (Creating_junction s t), Mklink s t,
                                          Say Junction_created]\<rparr>)"
    using mk rc
    by (simp add: create_junction_def bnd_def say_def run_program_def record_event_def)
  then show ?thesis using del ex
    by (simp add: link_only_steps_def bnd_def say_def record_event_def)
qed


text \<open>
  Claim C6 says that in a link-only run the source is removed, the junction is made and
  the target is not touched. The removal of the source does not spare a target that is
  the source itself (or lies inside it). Here the user types the source path again as
  the target and chooses to link only: the file \<open>a.bin\<close> that was in the target is
  gone after the run, and the junction points at its own path.
\<close>

theorem link_only_same_path_empties_target:
  "lstat (files typed_same_link) [''models'', ''a.bin''] = Some (File ''weights'')
   \<and> cli_decide plain_env typed_same_link
     = (Inr (Some ([''models''], Link_only_to_existing [''models''])),
        models_world\<lparr>out := menu_answered [''models''] ''7.00 B'' Confirm_link_only\<rparr>)
   \<and> run_cli plain_env typed_same_link
     = Some (Inr (),
         \<lparr>files = [([''models''], Symlink [''models''])], stdin = [],
          out = menu_answered [''models''] ''7.00 B'' Confirm_link_only
                @ [Say (Deleting_source [''models'']), Rmtree [''models''],
                   Say (Creating_junction [''models''] [''models'']),
                   Mklink [''models''] [''models''], Say Junction_created,
                   Say Done_link_only]\<rparr>)"
  by code_simp

text \<open>
  Claim C6, amended. A run in which the user selects the link-only policy (in the
  command-line run the target then exists) does the link-only steps and nothing else, and
  these steps never call the copier: all they log is the removal of the source, the
  \<open>mklink\<close> call for the source path pointing at the target, and their messages. When
  the source is a directory whose removal meets no I/O error, neither path is the other
  or lies inside it, and \<open>mklink\<close> exits with 0, the steps return: the source tree is
  gone, \<open>mklink\<close> has run for the source path pointing at the target, and every entry at
  or below the target is, when \<open>mklink\<close> starts, what it was.
\<close>

theorem link_only_run:
  "(cli_decide env w0 = (Inr (Some (source, Link_only_to_existing target)), w)
      \<longrightarrow> run_cli env w0 = Some (link_only_steps env source target w)
          \<and> path_exists (files w) target)
   \<and> (gui_prepare env f ans w0 = (Inr (Some (source, target)), w1) \<and> link_only_var f
        \<and> w = record_event (Set_running True) w1
      \<longrightarrow> gui_start env f ans w0
          = Some (case link_only_steps env source target w of
                    (r, w') \<Rightarrow> (r, record_event (Set_running False) w')))
   \<and> (\<forall>r w'. link_only_steps env source target w = (r, w')
      \<longrightarrow> (\<exists>es. out w' = out w @ es
               \<and> set es \<subseteq> {Say (Deleting_source source), Rmtree source,
                            Say (Creating_junction source target), Mklink source target,
                            Say Junction_created, Say Done_link_only}))
   \<and> (lstat (files w) source = Some Directory \<and> rmtree_fault env source (files w) = None
        \<and> \<not> prefix source target \<and> \<not> prefix target source
        \<and> mklink env source target (without_tree source (files w)) = (Inr c, fs2)
        \<and> returncode c = 0
      \<longrightarrow> link_only_steps env source target w
          = (Inr (), w\<lparr>files := fs2,
                       out := out w @ [Say (Deleting_source source), Rmtree source,
                                       Say (Creating_junction source target),
                                       Mklink source target, Say Junction_created,
                                       Say Done_link_only]\<rparr>)
          \<and> (\<forall>q. prefix source q \<longrightarrow> lstat (without_tree source (files w)) q = None)
          \<and> (\<forall>q. prefix target q
                \<longrightarrow> lstat (without_tree source (files w)) q = lstat (files w) q))"
proof (intro conjI impI allI)
  assume d: "cli_decide env w0 = (Inr (Some (source, Link_only_to_existing target)), w)"
  then show "run_cli env w0 = Some (link_only_steps env source target w)"
    by (simp add: run_cli_def)
  from cli_decide_result [OF d] show "path_exists (files w) target" by simp
next
  assume "gui_prepare env f ans w0 = (Inr (Some (source, target)), w1) \<and> link_only_var f
          \<and> w = record_event (Set_running True) w1"
  then show "gui_start env f ans w0
             = Some (case link_only_steps env source target w of
                       (r, w') \<Rightarrow> (r, record_event (Set_running False) w'))"
    by (simp add: gui_start_def gui_worker_def)
next
  fix r w'
  assume "link_only_steps env source target w = (r, w')"
  then show "\<exists>es. out w' = out w @ es
               \<and> set es \<subseteq> {Say (Deleting_source source), Rmtree source,
                            Say (Creating_junction source target), Mklink source target,
                            Say Junction_created, Say Done_link_only}"
    by (rule link_only_steps_out)
next
  assume h: "lstat (files w) source = Some Directory \<and> rmtree_fault env source (files w) = None
        \<and> \<not> prefix source target \<and> \<not> prefix target source
        \<and> mklink env source target (without_tree source (files w)) = (Inr c, fs2)
        \<and> returncode c = 0"
  then have ne: "source \<noteq> []" by auto
  show "link_only_steps env source target w
          = (Inr (), w\<lparr>files := fs2,
                       out := out w @ [Say (Deleting_source source), Rmtree source,
                                       Say (Creating_junction source target),
                                       Mklink source target, Say Junction_created,
                                       Say Done_link_only]\<rparr>)"
    using h ne link_only_steps_done [of w source env target c fs2] by simp
  fix q
  {
    assume "prefix source q"
    moreover from this ne have "q \<noteq> []" by auto
    ultimately show "lstat (without_tree source (files w)) q = None"
      by (rule lstat_without_inside)
  }
  {
    assume tq: "prefix target q"
    have "\<not> prefix source q"
    proof
      assume "prefix source q"
      with tq have "prefix source target \<or> prefix target source"
        using prefix_same_cases by blast
      then show False using h by simp
    qed
    then show "lstat (without_tree source (files w)) q = lstat (files w) q"
      by (rule lstat_without_outside)
  }
qed

theorem link_only_run_witness:
  "cli_decide plain_env typed_link_only
     = (Inr (Some ([''models''], Link_only_to_existing [''backup''])), link_only_chosen)
   \<and> lstat (files link_only_chosen) [''models''] = Some Directory
   \<and> \<not> prefix [''models''] [''backup''] \<and> \<not> prefix [''backup''] [''models'']
   \<and> run_cli plain_env typed_link_only
     = Some (Inr (),
         \<lparr>files = [([''backup''], Directory), ([''backup'', ''b.bin''], File ''old''),
                   ([''models''], Symlink [''backup''])],
          stdin = [],
          out = menu_answered [''backup''] ''3.00 B'' Confirm_link_only
                @ [Say (Deleting_source [''models'']), Rmtree [''models''],
                   Say (Creating_junction [''models''] [''backup'']),
                   Mklink [''models''] [''backup''], Say Junction_created,
                   Say Done_link_only]\<rparr>)
   \<and> lstat (without_tree [''models''] (files link_only_chosen)) [''backup'', ''b.bin'']
     = Some (File ''old'')"
proof -
  note inst = link_only_run [where env = plain_env and ?w0.0 = typed_link_only
      and source = "[''models'']" and target = "[''backup'']" and w = link_only_chosen
      and c = "\<lparr>returncode = 0, stdout = [], stderr = []\<rparr>"
      and ?fs2.0 = "[([''backup''], Directory), ([''backup'', ''b.bin''], File ''old''),
                     ([''models''], Symlink [''backup''])]"]
  have d: "cli_decide plain_env typed_link_only
     = (Inr (Some ([''models''], Link_only_to_existing [''backup''])), link_only_chosen)"
    by code_simp
  have l: "lstat (files link_only_chosen) [''models''] = Some Directory" by code_simp
  have n: "rmtree_fault plain_env [''models''] (files link_only_chosen) = None" by code_simp
  have m: "mklink plain_env [''models''] [''backup'']
             (without_tree [''models''] (files link_only_chosen))
           = (Inr \<lparr>returncode = 0, stdout = [], stderr = []\<rparr>,
              [([''backup''], Directory), ([''backup'', ''b.bin''], File ''old''),
               ([''models''], Symlink [''backup''])])"
    by code_simp
  have p: "\<not> prefix [''models''] [''backup'']" "\<not> prefix [''backup''] [''models'']"
    by simp_all
  from inst [THEN conjunct1] d
  have r: "run_cli plain_env typed_link_only
           = Some (link_only_steps plain_env [''models''] [''backup''] link_only_chosen)"
    by simp
  from inst [THEN conjunct2, THEN conjunct2, THEN conjunct2] l n m p
  have s: "link_only_steps plain_env [''models''] [''backup''] link_only_chosen
        = (Inr (), link_only_chosen\<lparr>files := [([''backup''], Directory),
                 ([''backup'', ''b.bin''], File ''old''), ([''models''], Symlink [''backup''])],
               out := out link_only_chosen @ [Say (Deleting_source [''models'']),
                 Rmtree [''models''], Say (Creating_junction [''models''] [''backup'']),
                 Mklink [''models''] [''backup''], Say Junction_created, Say Done_link_only]\<rparr>)"
    and t: "\<forall>q. prefix [''backup''] q
              \<longrightarrow> lstat (without_tree [''models''] (files link_only_chosen)) q
                  = lstat (files link_only_chosen) q"
    by simp_all
  have "lstat (files link_only_chosen) [''backup'', ''b.bin''] = Some (File ''old'')"
    by code_simp
  with t have "lstat (without_tree [''models''] (files link_only_chosen)) [''backup'', ''b.bin'']
               = Some (File ''old'')"
    by simp
  then show ?thesis using d l p r s by (simp add: link_only_chosen_def)
qed

section \<open>The Python copy only adds\<close>

lemma grows_refl: "grows fs fs"
  by (simp add: grows_def)

lemma lstat_append_Some: "lstat fs p = Some e \<Longrightarrow> lstat (fs @ new) p = Some e"
  by (auto simp: lstat_def split: if_splits)

lemma lstat_append_None: "lstat (fs @ new) p = None \<Longrightarrow> lstat fs p = None"
  by (auto simp: lstat_def split: if_splits)

lemma grows_trans:
  assumes "grows a b" and "grows b c"
  shows "grows a c"
proof -
  from assms obtain n1 n2 where b: "b = a @ n1" and c: "c = b @ n2"
    and f1: "\<forall>(p, e) \<in> set n1. lstat a p = None"
    and f2: "\<forall>(p, e) \<in> set n2. lstat b p = None"
    by (auto simp: grows_def)
  have "\<forall>(p, e) \<in> set n2. lstat a p = None"
    using f2 b lstat_append_None by blast
  then have "\<forall>(p, e) \<in> set (n1 @ n2). lstat a p = None" using f1 by auto
  moreover have "c = a @ (n1 @ n2)" using b c by simp
  ultimately show ?thesis unfolding grows_def by blast
qed

lemma grows_lstat: "grows fs fs' \<Longrightarrow> lstat fs p = Some e \<Longrightarrow> lstat fs' p = Some e"
  by (auto simp: grows_def lstat_append_Some)

lemma mkdir_each_grows:
  "mkdir_each qs fs = Inr fs' \<Longrightarrow> grows fs fs'"
proof (induction qs arbitrary: fs)
  case Nil
  then show ?case by (simp add: grows_refl)
next
  case (Cons q qs)
  show ?case
  proof (cases "lstat fs q")
    case None
    then have "mkdir_each qs (fs @ [(q, Directory)]) = Inr fs'"
      using Cons.prems by (simp split: if_splits)
    then have "grows (fs @ [(q, Directory)]) fs'" by (rule Cons.IH)
    moreover have "grows fs (fs @ [(q, Directory)])" using None by (simp add: grows_def)
    ultimately show ?thesis using grows_trans by blast
  next
    case (Some e)
    then have "mkdir_each qs fs = Inr fs'" using Cons.prems by (simp split: if_splits)
    then show ?thesis by (rule Cons.IH)
  qed
qed

lemma write_target_missing:
  "write_target n fs p = Some d \<Longrightarrow> follow n fs p = None \<Longrightarrow> lstat fs d = None"
proof (induction n arbitrary: p)
  case 0
  then show ?case by (auto split: option.splits entry.splits)
next
  case (Suc n)
  then show ?case by (auto split: option.splits entry.splits)
qed

lemma not_exists_not_dir: "\<not> path_exists fs p \<Longrightarrow> \<not> path_is_dir fs p"
  using is_dir_exists by blast

lemma copy2_fs_grows:
  assumes "copy2_fs src dst fs = Inr fs'" and "\<not> path_exists fs dst"
  shows "grows fs fs'"
proof -
  have c: "copyfile src dst fs = Inr fs'"
    using assms not_exists_not_dir by (simp add: copy2_fs_def)
  have nf: "follow link_limit fs dst = None"
    using assms(2) by (cases "follow link_limit fs dst") (simp_all add: path_exists_def stat_def)
  from c obtain d content where wt: "write_target link_limit fs dst = Some d"
    and r: "(case lstat fs d of
                Some Directory \<Rightarrow> Inl PermissionError
              | Some e \<Rightarrow> Inr (AList.update d (File content) fs)
              | None \<Rightarrow>
                 if too_long d then Inl OSError
                 else if path_is_dir fs (butlast d) then Inr (fs @ [(d, File content)])
                 else Inl FileNotFoundError) = Inr fs'"
    by (auto simp: copyfile_def split: if_splits option.splits prod.splits entry.splits)
  from write_target_missing [OF wt nf] have "lstat fs d = None" .
  then have "fs' = fs @ [(d, File content)]" using r by (simp split: if_splits)
  then show ?thesis using \<open>lstat fs d = None\<close> by (simp add: grows_def)
qed

lemma fs_op_result:
  assumes "fs_op ev f w = (r, w')"
  shows "out w' = out w @ [ev] \<and> stdin w' = stdin w
       \<and> ((\<exists>e. f (files w) = Inl e \<and> r = Inl e \<and> files w' = files w)
          \<or> (f (files w) = Inr (files w') \<and> r = Inr ()))"
  using assms by (auto simp: fs_op_def record_event_def split: sum.splits)

lemma copy_files_grows:
  "copy_files root_dir dest_root names w = (r, w') \<Longrightarrow> grows (files w) (files w')"
proof (induction names arbitrary: w)
  case Nil
  then show ?case by (simp add: return_def grows_refl)
next
  case (Cons n names)
  consider (long) "too_long (dest_root @ [n])"
    | (there) "\<not> too_long (dest_root @ [n])" "path_exists (files w) (dest_root @ [n])"
    | (missing) "\<not> too_long (dest_root @ [n])" "\<not> path_exists (files w) (dest_root @ [n])"
    by blast
  then show ?case
  proof cases
    case long
    then show ?thesis using Cons.prems by (simp add: raise_def grows_refl)
  next
    case there
    then show ?thesis using Cons by simp
  next
    case missing
    obtain r1 w1 where c: "copy2 (root_dir @ [n]) (dest_root @ [n]) w = (r1, w1)"
      by (cases "copy2 (root_dir @ [n]) (dest_root @ [n]) w")
    from fs_op_result [OF c [unfolded copy2_def]] missing(2)
    have g1: "grows (files w) (files w1)"
      by (auto simp: grows_refl intro: copy2_fs_grows)
    show ?thesis
    proof (cases r1)
      case (Inl e)
      then show ?thesis using Cons.prems missing c g1 by (simp add: bnd_def)
    next
      case (Inr u)
      then have "copy_files root_dir dest_root names w1 = (r, w')"
        using Cons.prems missing c by (simp add: bnd_def)
      then have "grows (files w1) (files w')" by (rule Cons.IH)
      then show ?thesis using g1 grows_trans by blast
    qed
  qed
qed

lemma ensure_directory_grows:
  "ensure_directory p w = (r, w') \<Longrightarrow> grows (files w) (files w')"
  using fs_op_result [of "Mkdir p" "mkdir_parents p" w r w']
  by (auto simp: ensure_directory_def mkdir_parents_def grows_refl intro: mkdir_each_grows)

lemma copy_visit_grows:
  assumes "copy_visit source target root_dir names w = (r, w')"
  shows "grows (files w) (files w')"
proof -
  let ?dest = "if relpath root_dir source \<noteq> [] then target @ relpath root_dir source else target"
  obtain r1 w1 where e: "ensure_directory ?dest w = (r1, w1)"
    by (cases "ensure_directory ?dest w")
  then have g1: "grows (files w) (files w1)" by (rule ensure_directory_grows)
  show ?thesis
  proof (cases r1)
    case (Inl x)
    then show ?thesis using assms e g1 by (simp add: copy_visit_def Let_def bnd_def)
  next
    case (Inr u)
    then have "copy_files root_dir ?dest names w1 = (r, w')"
      using assms e by (simp add: copy_visit_def Let_def bnd_def)
    then have "grows (files w1) (files w')" by (rule copy_files_grows)
    then show ?thesis using g1 grows_trans by blast
  qed
qed

text \<open>
  Induction over a walk that returns: the stack is empty; or its first directory cannot
  be listed and is skipped; or the visit of it raises; or the visit returns and the walk
  goes on with the directories below it put before the rest.
\<close>

lemma copy_walk_induct [consumes 1, case_names Empty Skip Raise Visit]:
  assumes major: "copy_walk source target stack w = Some y"
    and Empty: "\<And>w. P [] w (Inr (), w)"
    and Skip: "\<And>root_dir rest w y.
        \<not> path_is_dir (files w) root_dir \<Longrightarrow> copy_walk source target rest w = Some y
        \<Longrightarrow> P rest w y \<Longrightarrow> P (root_dir # rest) w y"
    and Raise: "\<And>root_dir rest w e w1.
        path_is_dir (files w) root_dir
        \<Longrightarrow> copy_visit source target root_dir (scan_files (files w) root_dir) w = (Inl e, w1)
        \<Longrightarrow> P (root_dir # rest) w (Inl e, w1)"
    and Visit: "\<And>root_dir rest w w1 y.
        path_is_dir (files w) root_dir
        \<Longrightarrow> copy_visit source target root_dir (scan_files (files w) root_dir) w = (Inr (), w1)
        \<Longrightarrow> copy_walk source target (walk_into (files w) root_dir @ rest) w1 = Some y
        \<Longrightarrow> P (walk_into (files w) root_dir @ rest) w1 y
        \<Longrightarrow> P (root_dir # rest) w y"
  shows "P stack w y"
proof -
  let ?Q = "\<lambda>s t st v z. copy_walk s t st v = Some z \<and> (s = source \<longrightarrow> t = target \<longrightarrow> P st v z)"
  have "?Q source target stack w y"
  proof (rule copy_walk.raw_induct [where P = ?Q])
    show "copy_walk source target stack w = Some y" by (rule major)
  next
    fix walk s t st v z
    assume IH: "\<And>s' t' st' v' z'. walk s' t' st' v' = Some z' \<Longrightarrow> ?Q s' t' st' v' z'"
      and body: "(case st of
        [] \<Rightarrow> Some (Inr (), v)
      | root_dir # rest \<Rightarrow>
          if \<not> path_is_dir (files v) root_dir then walk s t rest v
          else case copy_visit s t root_dir (scan_files (files v) root_dir) v of
                 (Inl e, w1) \<Rightarrow> Some (Inl e, w1)
               | (Inr u, w1) \<Rightarrow> walk s t (walk_into (files v) root_dir @ rest) w1) = Some z"
    show "?Q s t st v z"
    proof (cases st)
      case Nil
      then have "z = (Inr (), v)" using body by simp
      then show ?thesis using Nil Empty by (simp add: copy_walk.simps)
    next
      case (Cons root_dir rest)
      show ?thesis
      proof (cases "path_is_dir (files v) root_dir")
        case False
        then have "walk s t rest v = Some z" using body Cons by simp
        from IH [OF this] have eq: "copy_walk s t rest v = Some z"
          and p: "s = source \<longrightarrow> t = target \<longrightarrow> P rest v z" by simp_all
        have "copy_walk s t st v = Some z"
          using eq Cons False by (subst copy_walk.simps) simp
        moreover have "s = source \<longrightarrow> t = target \<longrightarrow> P st v z"
          using Skip [of v root_dir rest z] False eq p Cons by blast
        ultimately show ?thesis by simp
      next
        case True
        obtain r1 w1 where cv: "copy_visit s t root_dir (scan_files (files v) root_dir) v = (r1, w1)"
          by (cases "copy_visit s t root_dir (scan_files (files v) root_dir) v")
        show ?thesis
        proof (cases r1)
          case (Inl e)
          then have z: "z = (Inl e, w1)" using body Cons True cv by simp
          have "copy_walk s t st v = Some z"
            using z Cons True cv Inl by (subst copy_walk.simps) simp
          moreover have "s = source \<longrightarrow> t = target \<longrightarrow> P st v z"
            using Raise [of v root_dir e w1 rest] True cv Inl z Cons by blast
          ultimately show ?thesis by simp
        next
          case (Inr u)
          then have "walk s t (walk_into (files v) root_dir @ rest) w1 = Some z"
            using body Cons True cv by simp
          from IH [OF this]
          have eq: "copy_walk s t (walk_into (files v) root_dir @ rest) w1 = Some z"
            and p: "s = source \<longrightarrow> t = target
                    \<longrightarrow> P (walk_into (files v) root_dir @ rest) w1 z" by simp_all
          have "copy_walk s t st v = Some z"
            using eq Cons True cv Inr by (subst copy_walk.simps) simp
          moreover have "s = source \<longrightarrow> t = target \<longrightarrow> P st v z"
            using Visit [of v root_dir w1 rest z] True cv Inr eq p Cons by auto
          ultimately show ?thesis by simp
        qed
      qed
    qed
  qed
  then show ?thesis by simp
qed

lemma copy_walk_grows_snd:
  "copy_walk source target stack w = Some y \<Longrightarrow> grows (files w) (files (snd y))"
proof (induction rule: copy_walk_induct)
  case (Empty w)
  show ?case by (simp add: grows_refl)
next
  case (Skip root_dir rest w y)
  then show ?case by simp
next
  case (Raise root_dir rest w e w1)
  then show ?case by (auto dest: copy_visit_grows)
next
  case (Visit root_dir rest w w1 y)
  from copy_visit_grows [OF Visit(2)] Visit(4) show ?case using grows_trans by blast
qed

lemma copy_walk_grows:
  "copy_walk source target stack w = Some (r, w') \<Longrightarrow> grows (files w) (files w')"
  using copy_walk_grows_snd by fastforce


section \<open>Running the Python copy again\<close>

lemma follow_append: "follow n fs p = Some x \<Longrightarrow> follow n (fs @ new) p = Some x"
proof (induction n arbitrary: p)
  case 0
  then show ?case
    by (cases "lstat fs p") (auto simp: lstat_append_Some split: entry.splits)
next
  case (Suc n)
  show ?case
  proof (cases "lstat fs p")
    case None
    then show ?thesis using Suc.prems by simp
  next
    case (Some e)
    then have l: "lstat (fs @ new) p = Some e" by (rule lstat_append_Some)
    show ?thesis
    proof (cases e)
      case (Symlink q)
      then have "follow n fs q = Some x" using Suc.prems Some by simp
      then have "follow n (fs @ new) q = Some x" by (rule Suc.IH)
      then show ?thesis using l Symlink by simp
    qed (use Suc.prems Some l in auto)
  qed
qed

lemma lstat_append_new: "lstat fs p = None \<Longrightarrow> lstat (fs @ new) p = map_of new p"
  by (auto simp: lstat_def map_add_def split: if_splits)

lemma exists_append: "path_exists fs p \<Longrightarrow> path_exists (fs @ new) p"
  by (cases "stat fs p") (auto simp: path_exists_def stat_def dest: follow_append)

lemma is_dir_append: "path_is_dir fs p \<Longrightarrow> path_is_dir (fs @ new) p"
  by (cases "stat fs p")
     (auto simp: path_is_dir_def stat_def dest: follow_append [where new = new])

lemma adds_near_refl: "adds_near t fs fs"
  by (simp add: adds_near_def)

lemma adds_near_trans: "adds_near t a b \<Longrightarrow> adds_near t b c \<Longrightarrow> adds_near t a c"
proof -
  assume "adds_near t a b" and "adds_near t b c"
  then obtain n1 n2 where "b = a @ n1" "c = b @ n2"
    "\<forall>(p, e) \<in> set n1. (prefix p t \<or> prefix t p) \<and> \<not> is_link e"
    "\<forall>(p, e) \<in> set n2. (prefix p t \<or> prefix t p) \<and> \<not> is_link e"
    by (auto simp: adds_near_def)
  then have "c = a @ (n1 @ n2)"
    "\<forall>(p, e) \<in> set (n1 @ n2). (prefix p t \<or> prefix t p) \<and> \<not> is_link e"
    by auto
  then show ?thesis unfolding adds_near_def by blast
qed

lemma adds_near_no_links:
  "adds_near t fs fs' \<Longrightarrow> no_links_below d fs \<Longrightarrow> no_links_below d fs'"
  by (auto simp: adds_near_def no_links_below_def)

lemma near_not_below:
  assumes "\<not> prefix s t" and "\<not> prefix t s" and "prefix p t \<or> prefix t p"
  shows "\<not> prefix s p"
proof
  assume sp: "prefix s p"
  from assms(3) show False
  proof
    assume "prefix p t"
    with sp have "prefix s t" by (rule prefix_order.trans)
    then show False using assms(1) by simp
  next
    assume "prefix t p"
    with sp have "prefix s t \<or> prefix t s" using prefix_same_cases by blast
    then show False using assms by simp
  qed
qed

lemma mkdir_each_near:
  "mkdir_each qs fs = Inr fs' \<Longrightarrow> \<forall>q \<in> set qs. prefix q t \<or> prefix t q \<Longrightarrow> adds_near t fs fs'"
proof (induction qs arbitrary: fs)
  case Nil
  then show ?case by (simp add: adds_near_refl)
next
  case (Cons q qs)
  show ?case
  proof (cases "lstat fs q")
    case None
    then have "mkdir_each qs (fs @ [(q, Directory)]) = Inr fs'"
      using Cons.prems by (simp split: if_splits)
    then have "adds_near t (fs @ [(q, Directory)]) fs'" using Cons by simp
    moreover have "adds_near t fs (fs @ [(q, Directory)])"
      using Cons.prems by (simp add: adds_near_def is_link_def)
    ultimately show ?thesis using adds_near_trans by blast
  next
    case (Some e)
    then have "mkdir_each qs fs = Inr fs'" using Cons.prems by (simp split: if_splits)
    then show ?thesis using Cons by simp
  qed
qed

lemma mkdir_each_made:
  "mkdir_each qs fs = Inr fs' \<Longrightarrow> \<forall>q \<in> set qs. lstat fs' q \<noteq> None \<and> path_is_dir fs' q"
proof (induction qs arbitrary: fs)
  case Nil
  then show ?case by simp
next
  case (Cons q qs)
  show ?case
  proof (cases "lstat fs q")
    case None
    then have r: "mkdir_each qs (fs @ [(q, Directory)]) = Inr fs'"
      using Cons.prems by (simp split: if_splits)
    from mkdir_each_grows [OF r] obtain new where n: "fs' = (fs @ [(q, Directory)]) @ new"
      by (auto simp: grows_def)
    have l: "lstat (fs @ [(q, Directory)]) q = Some Directory"
      using None by (simp add: lstat_append_new)
    then have "path_is_dir (fs @ [(q, Directory)]) q"
      by (simp add: path_is_dir_def stat_def follow_directory)
    then have "path_is_dir fs' q" unfolding n by (rule is_dir_append)
    moreover have "lstat fs' q \<noteq> None" unfolding n using lstat_append_Some [OF l] by simp
    ultimately show ?thesis using Cons.IH [OF r] by simp
  next
    case (Some e)
    then have d: "path_is_dir fs q" and r: "mkdir_each qs fs = Inr fs'"
      using Cons.prems by (simp_all split: if_splits)
    from mkdir_each_grows [OF r] obtain new where n: "fs' = fs @ new"
      by (auto simp: grows_def)
    have "path_is_dir fs' q" unfolding n using d by (rule is_dir_append)
    moreover have "lstat fs' q \<noteq> None" unfolding n using lstat_append_Some [OF Some] by simp
    ultimately show ?thesis using Cons.IH [OF r] by simp
  qed
qed

lemma mkdir_each_nothing:
  "\<forall>q \<in> set qs. lstat fs q \<noteq> None \<and> path_is_dir fs q \<Longrightarrow> mkdir_each qs fs = Inr fs"
  by (induction qs) auto


lemma write_target_plain: "\<not> path_is_symlink fs p \<Longrightarrow> write_target n fs p = Some p"
  by (cases n) (auto simp: path_is_symlink_def split: option.splits entry.splits)

lemma copy2_fs_fresh:
  assumes "copy2_fs src dst fs = Inr fs'" and "lstat fs dst = None"
  shows "\<exists>content. fs' = fs @ [(dst, File content)]"
proof -
  from missing_not_seen [OF assms(2)]
  have ne: "\<not> path_exists fs dst" and ns: "\<not> path_is_symlink fs dst" by simp_all
  have c: "copyfile src dst fs = Inr fs'"
    using assms(1) ne not_exists_not_dir by (simp add: copy2_fs_def)
  have wt: "write_target link_limit fs dst = Some dst" using ns by (rule write_target_plain)
  show ?thesis
    using c wt assms(2)
    by (auto simp: copyfile_def split: if_splits option.splits prod.splits entry.splits)
qed

lemma unlinked_missing:
  assumes "no_links_below t fs" and "prefix t p" and "\<not> path_exists fs p"
  shows "lstat fs p = None"
proof (cases "lstat fs p")
  case (Some e)
  have "\<not> is_link e"
  proof (cases "p = []")
    case True
    then show ?thesis using Some by (simp add: lstat_def is_link_def)
  next
    case False
    then have "(p, e) \<in> set fs" using Some by (auto simp: lstat_def dest: map_of_SomeD)
    then show ?thesis using assms(1,2) by (auto simp: no_links_below_def)
  qed
  then have "path_exists fs p \<or> path_is_symlink fs p" using entry_is_seen [OF Some] by simp
  moreover have "\<not> path_is_symlink fs p"
    using Some \<open>\<not> is_link e\<close> by (auto simp: path_is_symlink_def is_link_def split: entry.splits)
  ultimately show ?thesis using assms(3) by simp
qed simp

lemma copy_files_near:
  "copy_files root_dir dest names w = (r, w') \<Longrightarrow> prefix t dest
   \<Longrightarrow> no_links_below t (files w) \<Longrightarrow> adds_near t (files w) (files w')"
proof (induction names arbitrary: w)
  case Nil
  then show ?case by (simp add: return_def adds_near_refl)
next
  case (Cons n names)
  have pt: "prefix t (dest @ [n])" using Cons.prems(2) by (simp add: prefix_prefix)
  consider (long) "too_long (dest @ [n])"
    | (there) "\<not> too_long (dest @ [n])" "path_exists (files w) (dest @ [n])"
    | (missing) "\<not> too_long (dest @ [n])" "\<not> path_exists (files w) (dest @ [n])"
    by blast
  then show ?case
  proof cases
    case long
    then show ?thesis using Cons.prems by (simp add: raise_def adds_near_refl)
  next
    case there
    then show ?thesis using Cons by simp
  next
    case missing
    note short = missing(1) and False = missing(2)
    from unlinked_missing [OF Cons.prems(3) pt False]
    have miss: "lstat (files w) (dest @ [n]) = None" .
    obtain r1 w1 where c: "copy2 (root_dir @ [n]) (dest @ [n]) w = (r1, w1)"
      by (cases "copy2 (root_dir @ [n]) (dest @ [n]) w")
    from fs_op_result [OF c [unfolded copy2_def]]
    have n1: "adds_near t (files w) (files w1)"
    proof (elim conjE disjE exE)
      assume "files w1 = files w"
      then show ?thesis by (simp add: adds_near_refl)
    next
      assume "copy2_fs (root_dir @ [n]) (dest @ [n]) (files w) = Inr (files w1)"
      from copy2_fs_fresh [OF this miss] pt show ?thesis
        by (auto simp: adds_near_def is_link_def)
    qed
    show ?thesis
    proof (cases r1)
      case (Inl e)
      then show ?thesis using Cons.prems short False c n1 by (simp add: bnd_def)
    next
      case (Inr u)
      then have "copy_files root_dir dest names w1 = (r, w')"
        using Cons.prems short False c by (simp add: bnd_def)
      moreover have "no_links_below t (files w1)"
        using n1 Cons.prems(3) by (rule adds_near_no_links)
      ultimately have "adds_near t (files w1) (files w')" using Cons.IH Cons.prems(2) by blast
      then show ?thesis using n1 adds_near_trans by blast
    qed
  qed
qed

lemma copy_files_present:
  "copy_files root_dir dest names w = (Inr (), w') \<Longrightarrow> prefix t dest
   \<Longrightarrow> no_links_below t (files w)
   \<Longrightarrow> \<forall>n \<in> set names. \<not> too_long (dest @ [n]) \<and> path_exists (files w') (dest @ [n])"
proof (induction names arbitrary: w)
  case Nil
  then show ?case by simp
next
  case (Cons n names)
  have pt: "prefix t (dest @ [n])" using Cons.prems(2) by (simp add: prefix_prefix)
  have short: "\<not> too_long (dest @ [n])"
    using Cons.prems(1) by (auto simp: raise_def split: if_splits)
  obtain w1 where step: "copy_files root_dir dest names w1 = (Inr (), w')"
    and near: "adds_near t (files w) (files w1)"
    and here: "path_exists (files w1) (dest @ [n])"
  proof (cases "path_exists (files w) (dest @ [n])")
    case True
    then have "copy_files root_dir dest names w = (Inr (), w')"
      using Cons.prems(1) short by simp
    then show ?thesis using True adds_near_refl that by blast
  next
    case False
    from unlinked_missing [OF Cons.prems(3) pt False]
    have miss: "lstat (files w) (dest @ [n]) = None" .
    obtain r1 w1 where c: "copy2 (root_dir @ [n]) (dest @ [n]) w = (r1, w1)"
      by (cases "copy2 (root_dir @ [n]) (dest @ [n]) w")
    then have r1: "r1 = Inr ()" and st: "copy_files root_dir dest names w1 = (Inr (), w')"
      using Cons.prems(1) short False by (auto simp: bnd_def split: sum.splits)
    from fs_op_result [OF c [unfolded copy2_def]] r1
    have "copy2_fs (root_dir @ [n]) (dest @ [n]) (files w) = Inr (files w1)" by auto
    from copy2_fs_fresh [OF this miss] obtain content where
      f: "files w1 = files w @ [(dest @ [n], File content)]" by blast
    then have "lstat (files w1) (dest @ [n]) = Some (File content)"
      using miss by (simp add: lstat_append_new)
    then have "path_exists (files w1) (dest @ [n])"
      by (simp add: path_exists_def stat_def follow_file)
    moreover have "adds_near t (files w) (files w1)"
      using f pt by (auto simp: adds_near_def is_link_def)
    ultimately show ?thesis using st that by blast
  qed
  have nl: "no_links_below t (files w1)" using near Cons.prems(3) by (rule adds_near_no_links)
  from copy_files_grows [OF step] obtain new where "files w' = files w1 @ new"
    by (auto simp: grows_def)
  then have "path_exists (files w') (dest @ [n])" using here exists_append by simp
  then show ?case using short Cons.IH [OF step Cons.prems(2) nl] by simp
qed

lemma copy_files_nothing:
  "\<forall>n \<in> set names. \<not> too_long (dest @ [n]) \<and> path_exists (files v) (dest @ [n])
   \<Longrightarrow> copy_files root_dir dest names v = (Inr (), v)"
  by (induction names) (simp_all add: return_def)


lemma dest_root_below:
  "prefix t (if relpath root_dir s \<noteq> [] then t @ relpath root_dir s else t)"
  by simp

lemma prefixes_near: "prefix t d \<Longrightarrow> \<forall>q \<in> set (prefixes d). prefix q t \<or> prefix t q"
  by (auto simp: in_set_prefixes dest: prefix_same_cases)

lemma ensure_directory_near:
  assumes "ensure_directory d w = (r, w')" and "prefix t d"
  shows "adds_near t (files w) (files w')"
  using fs_op_result [OF assms(1) [unfolded ensure_directory_def]] prefixes_near [OF assms(2)]
  by (auto simp: mkdir_parents_def adds_near_refl intro: mkdir_each_near)

lemma copy_visit_near:
  assumes "copy_visit s t root_dir names w = (r, w')" and "no_links_below t (files w)"
  shows "adds_near t (files w) (files w')"
proof -
  let ?dest = "if relpath root_dir s \<noteq> [] then t @ relpath root_dir s else t"
  have pt: "prefix t ?dest" by (rule dest_root_below)
  obtain r1 w1 where e: "ensure_directory ?dest w = (r1, w1)"
    by (cases "ensure_directory ?dest w")
  from ensure_directory_near [OF e pt] have n1: "adds_near t (files w) (files w1)" .
  show ?thesis
  proof (cases r1)
    case (Inl x)
    then show ?thesis using assms(1) e n1 by (simp add: copy_visit_def Let_def bnd_def)
  next
    case (Inr u)
    then have c: "copy_files root_dir ?dest names w1 = (r, w')"
      using assms(1) e by (simp add: copy_visit_def Let_def bnd_def)
    have "no_links_below t (files w1)" using n1 assms(2) by (rule adds_near_no_links)
    from copy_files_near [OF c pt this] n1 show ?thesis using adds_near_trans by blast
  qed
qed

lemma ensure_directory_nothing:
  assumes "\<forall>q \<in> set (prefixes d). lstat (files v) q \<noteq> None \<and> path_is_dir (files v) q"
  shows "\<exists>v'. ensure_directory d v = (Inr (), v') \<and> files v' = files v"
  using mkdir_each_nothing [OF assms]
  by (simp add: ensure_directory_def fs_op_def mkdir_parents_def record_event_def)

lemma copy_visit_settled:
  assumes run: "copy_visit s t root_dir names w = (Inr (), w1)"
    and nl: "no_links_below t (files w)"
    and later: "files v = files w1 @ new"
  shows "\<exists>v'. copy_visit s t root_dir names v = (Inr (), v') \<and> files v' = files v"
proof -
  let ?dest = "if relpath root_dir s \<noteq> [] then t @ relpath root_dir s else t"
  have pt: "prefix t ?dest" by (rule dest_root_below)
  obtain r1 wa where e: "ensure_directory ?dest w = (r1, wa)"
    by (cases "ensure_directory ?dest w")
  then have r1: "r1 = Inr ()" and c: "copy_files root_dir ?dest names wa = (Inr (), w1)"
    using run by (auto simp: copy_visit_def Let_def bnd_def split: sum.splits)
  from fs_op_result [OF e [unfolded ensure_directory_def]] r1
  have mk: "mkdir_each (prefixes ?dest) (files w) = Inr (files wa)"
    by (auto simp: mkdir_parents_def)
  from ensure_directory_near [OF e pt] nl have nla: "no_links_below t (files wa)"
    by (rule adds_near_no_links)
  from copy_files_grows [OF c] obtain new1 where f1: "files w1 = files wa @ new1"
    by (auto simp: grows_def)
  then have fv: "files v = files wa @ (new1 @ new)" using later by simp
  have "\<forall>q \<in> set (prefixes ?dest). lstat (files v) q \<noteq> None \<and> path_is_dir (files v) q"
  proof
    fix q assume "q \<in> set (prefixes ?dest)"
    with mkdir_each_made [OF mk]
    have a: "lstat (files wa) q \<noteq> None" and b: "path_is_dir (files wa) q" by simp_all
    from a obtain x where "lstat (files wa) q = Some x" by blast
    then have "lstat (files v) q = Some x" unfolding fv by (rule lstat_append_Some)
    moreover have "path_is_dir (files v) q" unfolding fv using b by (rule is_dir_append)
    ultimately show "lstat (files v) q \<noteq> None \<and> path_is_dir (files v) q" by simp
  qed
  from ensure_directory_nothing [OF this] obtain va where
    ev: "ensure_directory ?dest v = (Inr (), va)" and fva: "files va = files v" by blast
  have "\<forall>n \<in> set names. \<not> too_long (?dest @ [n]) \<and> path_exists (files va) (?dest @ [n])"
  proof
    fix n assume "n \<in> set names"
    with copy_files_present [OF c pt nla]
    have short: "\<not> too_long (?dest @ [n])" and "path_exists (files w1) (?dest @ [n])"
      by simp_all
    then have "path_exists (files va) (?dest @ [n])"
      unfolding fva later by (intro exists_append)
    with short show "\<not> too_long (?dest @ [n]) \<and> path_exists (files va) (?dest @ [n])" by simp
  qed
  then have "copy_files root_dir ?dest names va = (Inr (), va)" by (rule copy_files_nothing)
  then have "copy_visit s t root_dir names v = (Inr (), va)"
    using ev by (simp add: copy_visit_def Let_def bnd_def)
  then show ?thesis using fva by blast
qed

lemma copy_walk_near:
  assumes "copy_walk s t stack w = Some y"
  shows "no_links_below t (files w) \<Longrightarrow> adds_near t (files w) (files (snd y))"
  using assms
proof (induction rule: copy_walk_induct)
  case (Empty w)
  then show ?case by (simp add: adds_near_refl)
next
  case (Skip root_dir rest w y)
  then show ?case by simp
next
  case (Raise root_dir rest w e w1)
  then show ?case using copy_visit_near by fastforce
next
  case (Visit root_dir rest w w1 y)
  from copy_visit_near [OF Visit(2) Visit.prems]
  have n1: "adds_near t (files w) (files w1)" .
  then have "no_links_below t (files w1)" using Visit.prems by (rule adds_near_no_links)
  then have "adds_near t (files w1) (files (snd y))" by (rule Visit.IH)
  with n1 show ?case by (rule adds_near_trans)
qed


lemma is_dir_by_lstat:
  "\<forall>x. lstat fs q \<noteq> Some (Symlink x) \<Longrightarrow> path_is_dir fs q = (lstat fs q = Some Directory)"
proof (cases "lstat fs q")
  case None
  then show ?thesis by (simp add: path_is_dir_def stat_def follow_missing)
next
  case (Some e)
  assume "\<forall>x. lstat fs q \<noteq> Some (Symlink x)"
  then show ?thesis using Some
    by (cases e) (simp_all add: path_is_dir_def stat_def follow_file follow_directory)
qed

lemma below_unlinked:
  assumes "no_links_below s fs" and "prefix s q"
  shows "lstat fs q \<noteq> Some (Symlink x)"
proof
  assume l: "lstat fs q = Some (Symlink x)"
  then have "q \<noteq> []" by (auto simp: lstat_def)
  then have "(q, Symlink x) \<in> set fs" using l by (auto simp: lstat_def dest: map_of_SomeD)
  then show False using assms by (auto simp: no_links_below_def is_link_def)
qed

lemma lstat_frame:
  assumes "\<forall>(p, e) \<in> set new. \<not> prefix s p" and "prefix s q"
  shows "lstat (fs @ new) q = lstat fs q"
proof (cases "lstat fs q")
  case None
  have "q \<notin> fst ` set new" using assms by auto
  then have "map_of new q = None" by (simp add: map_of_eq_None_iff)
  then show ?thesis using None by (simp add: lstat_append_new)
next
  case (Some e)
  then show ?thesis by (simp add: lstat_append_Some)
qed

lemma is_dir_frame:
  assumes "\<forall>(p, e) \<in> set new. \<not> prefix s p" and "no_links_below s fs" and "prefix s q"
  shows "path_is_dir (fs @ new) q = path_is_dir fs q"
proof -
  have l: "lstat (fs @ new) q = lstat fs q" using assms(1,3) by (rule lstat_frame)
  have "\<forall>x. lstat fs q \<noteq> Some (Symlink x)" using below_unlinked [OF assms(2,3)] by blast
  then show ?thesis using l by (simp add: is_dir_by_lstat)
qed

lemma is_symlink_frame:
  assumes "\<forall>(p, e) \<in> set new. \<not> prefix s p" and "prefix s q"
  shows "path_is_symlink (fs @ new) q = path_is_symlink fs q"
  using lstat_frame [OF assms] by (simp add: path_is_symlink_def)

lemma listdir_frame:
  assumes "\<forall>(p, e) \<in> set new. \<not> prefix s p" and "prefix s d"
  shows "listdir (fs @ new) d = listdir fs d"
proof -
  have "\<And>p e. (p, e) \<in> set new \<Longrightarrow> \<not> (p \<noteq> [] \<and> butlast p = d)"
  proof
    fix p e assume m: "(p, e) \<in> set new" and "p \<noteq> [] \<and> butlast p = d"
    then have "p = d @ [last p]" by auto
    then have "prefix d p" by (metis prefixI)
    with assms(2) have "prefix s p" by (rule prefix_order.trans)
    then show False using assms(1) m by auto
  qed
  then have "listdir new d = []" by (auto simp: listdir_def)
  then show ?thesis by (simp add: listdir_def)
qed

lemma scan_frame:
  assumes "\<forall>(p, e) \<in> set new. \<not> prefix s p" and "no_links_below s fs" and "prefix s d"
  shows "scan_files (fs @ new) d = scan_files fs d" and "walk_into (fs @ new) d = walk_into fs d"
proof -
  have below: "\<And>n. prefix s (d @ [n])" using assms(3) by (simp add: prefix_prefix)
  have dir: "\<And>n. path_is_dir (fs @ new) (d @ [n]) = path_is_dir fs (d @ [n])"
    using is_dir_frame [OF assms(1,2) below] .
  have lnk: "\<And>n. path_is_symlink (fs @ new) (d @ [n]) = path_is_symlink fs (d @ [n])"
    using is_symlink_frame [OF assms(1) below] .
  have ls: "listdir (fs @ new) d = listdir fs d" using assms(1,3) by (rule listdir_frame)
  show "scan_files (fs @ new) d = scan_files fs d"
    unfolding scan_files_def ls dir ..
  show "walk_into (fs @ new) d = walk_into fs d"
    unfolding walk_into_def scan_dirs_def ls dir lnk ..
qed

lemma adds_near_outside:
  assumes "adds_near t fs fs'" and "\<not> prefix s t" and "\<not> prefix t s"
  obtains new where "fs' = fs @ new" and "\<forall>(p, e) \<in> set new. \<not> prefix s p"
proof -
  from assms(1) obtain new where n: "fs' = fs @ new"
    and a: "\<forall>(p, e) \<in> set new. (prefix p t \<or> prefix t p) \<and> \<not> is_link e"
    by (auto simp: adds_near_def)
  have "\<forall>(p, e) \<in> set new. \<not> prefix s p"
    using a near_not_below [OF assms(2,3)] by fastforce
  with n show ?thesis using that by blast
qed

lemma copy_walk_again:
  assumes "copy_walk s t stack w = Some y" and "\<not> prefix s t" and "\<not> prefix t s"
  shows "fst y = Inr () \<Longrightarrow> \<forall>d \<in> set stack. prefix s d
    \<Longrightarrow> no_links_below s (files w) \<Longrightarrow> no_links_below t (files w)
    \<Longrightarrow> files v = files (snd y)
    \<Longrightarrow> \<exists>v'. copy_walk s t stack v = Some (Inr (), v') \<and> files v' = files v"
  using assms(1)
proof (induction arbitrary: v rule: copy_walk_induct)
  case (Empty w)
  then show ?case by (simp add: copy_walk.simps)
next
  case (Skip root_dir rest w y)
  from copy_walk_near [OF Skip(2) Skip.prems(4)]
  have "adds_near t (files w) (files (snd y))" .
  then obtain new where n: "files (snd y) = files w @ new"
    and out: "\<forall>(p, e) \<in> set new. \<not> prefix s p"
    using assms(2,3) by (rule adds_near_outside)
  have "prefix s root_dir" using Skip.prems(2) by simp
  from is_dir_frame [OF out Skip.prems(3) this]
  have "\<not> path_is_dir (files v) root_dir" using Skip(1) Skip.prems(5) n by simp
  then have "copy_walk s t (root_dir # rest) v = copy_walk s t rest v"
    by (simp add: copy_walk.simps)
  moreover have "\<exists>v'. copy_walk s t rest v = Some (Inr (), v') \<and> files v' = files v"
    using Skip.IH Skip.prems by simp
  ultimately show ?case by simp
next
  case (Raise root_dir rest w e w1)
  then show ?case by simp
next
  case (Visit root_dir rest w w1 y)
  let ?names = "scan_files (files w) root_dir"
  let ?next = "walk_into (files w) root_dir"
  have below: "prefix s root_dir" using Visit.prems(2) by simp
  from copy_visit_near [OF Visit(2) Visit.prems(4)]
  have n1: "adds_near t (files w) (files w1)" .
  have nls: "no_links_below s (files w1)" using n1 Visit.prems(3) by (rule adds_near_no_links)
  have nlt: "no_links_below t (files w1)" using n1 Visit.prems(4) by (rule adds_near_no_links)
  from copy_walk_near [OF Visit(3) nlt] have n2: "adds_near t (files w1) (files (snd y))" .
  from n2 obtain new2 where f2: "files (snd y) = files w1 @ new2"
    by (auto simp: adds_near_def)
  from adds_near_trans [OF n1 n2] obtain new where n: "files (snd y) = files w @ new"
    and out: "\<forall>(p, e) \<in> set new. \<not> prefix s p"
    using assms(2,3) by (rule adds_near_outside)
  have fv: "files v = files w @ new" using Visit.prems(5) n by simp
  have d: "path_is_dir (files v) root_dir"
    using is_dir_frame [OF out Visit.prems(3) below] Visit(1) fv by simp
  have sf: "scan_files (files v) root_dir = ?names"
    unfolding fv using out Visit.prems(3) below by (rule scan_frame)
  have wi: "walk_into (files v) root_dir = ?next"
    unfolding fv using out Visit.prems(3) below by (rule scan_frame)
  have "files v = files w1 @ new2" using Visit.prems(5) f2 by simp
  from copy_visit_settled [OF Visit(2) Visit.prems(4) this]
  obtain v1 where cv: "copy_visit s t root_dir ?names v = (Inr (), v1)"
    and fv1: "files v1 = files v" by blast
  have step: "copy_walk s t (root_dir # rest) v = copy_walk s t (?next @ rest) v1"
    using d sf wi cv by (simp add: copy_walk.simps)
  have stack: "\<forall>d \<in> set (?next @ rest). prefix s d"
    using Visit.prems(2) by (auto simp: walk_into_def)
  have "files v1 = files (snd y)" using fv1 Visit.prems(5) by simp
  from Visit.IH [OF Visit.prems(1) stack nls nlt this]
  show ?case using step fv1 by simp
qed

section \<open>First copy wins\<close>

text \<open>
  Claim C8 says that running the Python copy again on an unchanged destination changes
  nothing. It does when the target lies inside the source: the walk of the source then
  reaches the copies the run before has made and copies them once more, one level deeper
  each time. Here \<open>models\<close> is copied into \<open>models/copy\<close>; the second run, started on the
  files the first one left, adds \<open>models/copy/copy/copy\<close> and a third copy of \<open>a.bin\<close>.
\<close>

theorem nested_target_copied_again:
  "files_of (copy_directory plain_env [''models''] [''models'', ''copy''] models_world)
     = Some (Inr (), nested_once)
   \<and> files_of (copy_directory plain_env [''models''] [''models'', ''copy'']
                 \<lparr>files = nested_once, stdin = [], out = []\<rparr>)
     = Some (Inr (), nested_twice)
   \<and> files_of (copy_walk [''models''] [''models'', ''copy''] [[''models'']]
                 \<lparr>files = nested_once, stdin = [], out = []\<rparr>)
     = Some (Inr (), nested_twice)
   \<and> nested_twice \<noteq> nested_once"
  by code_simp

text \<open>
  Claim C8, as the code has it. When the Python copy (lines 171-179) returns, with or
  without an exception, the file system is the one it found with entries added at the
  end, each at a path that held nothing: no entry is removed and every entry that was
  there, a destination file among them, is still there with the content it had. When it
  returned normally, neither of the two paths is the other or lies inside it, and no
  entry at or below them is a link, then the copy run again on the files it left returns
  normally and leaves the same files.
\<close>

theorem python_copy_first_wins:
  assumes "copy_walk source target [source] w = Some (r, w')"
  shows "grows (files w) (files w')
       \<and> (\<forall>p e. lstat (files w) p = Some e \<longrightarrow> lstat (files w') p = Some e)
       \<and> (r = Inr () \<longrightarrow> \<not> prefix source target \<longrightarrow> \<not> prefix target source
          \<longrightarrow> no_links_below source (files w) \<longrightarrow> no_links_below target (files w)
          \<longrightarrow> (\<forall>v. files v = files w'
                \<longrightarrow> (\<exists>v'. copy_walk source target [source] v = Some (Inr (), v')
                         \<and> files v' = files w')))"
proof (intro conjI allI impI)
  show g: "grows (files w) (files w')" using assms by (rule copy_walk_grows)
  fix p e assume "lstat (files w) p = Some e"
  with g show "lstat (files w') p = Some e" by (rule grows_lstat)
next
  fix v :: world
  assume "r = Inr ()" "\<not> prefix source target" "\<not> prefix target source"
    "no_links_below source (files w)" "no_links_below target (files w)" "files v = files w'"
  then show "\<exists>v'. copy_walk source target [source] v = Some (Inr (), v') \<and> files v' = files w'"
    using copy_walk_again [OF assms, where v = v] by simp
qed

theorem python_copy_first_wins_witness:
  "copy_walk [''models''] [''backup''] [[''models'']] models_world = Some (Inr (), python_copied)
   \<and> \<not> prefix [''models''] [''backup''] \<and> \<not> prefix [''backup''] [''models'']
   \<and> no_links_below [''models''] (files models_world)
   \<and> no_links_below [''backup''] (files models_world)
   \<and> grows (files models_world) (files python_copied)
   \<and> lstat (files python_copied) [''models'', ''a.bin''] = Some (File ''weights'')
   \<and> (\<exists>v'. copy_walk [''models''] [''backup''] [[''models'']] python_copied = Some (Inr (), v')
           \<and> files v' = files python_copied)"
proof -
  have run: "copy_walk [''models''] [''backup''] [[''models'']] models_world
             = Some (Inr (), python_copied)"
    by code_simp
  have p1: "\<not> prefix [''models''] [''backup'']" and p2: "\<not> prefix [''backup''] [''models'']"
    by simp_all
  have n1: "no_links_below [''models''] (files models_world)"
    and n2: "no_links_below [''backup''] (files models_world)"
    by (simp_all add: no_links_below_def is_link_def models_world_def)
  have l: "lstat (files models_world) [''models'', ''a.bin''] = Some (File ''weights'')"
    by (simp add: lstat_def models_world_def)
  from python_copy_first_wins [OF run] p1 p2 n1 n2 l run show ?thesis by blast
qed

end
